theory Spec2Isabelle
  imports Complex_Main "HOL-Library.Multiset" "HOL-Library.Sublist"
begin

section \<open>The lightscan pipeline: data model\<close>

text \<open>
  This theory embeds the execution engine of \<^verbatim>\<open>src/lightscan/main.cpp\<close>: the work
  planner, the cluster dispatcher, the load stage, the evaluate stage and the pool of
  frame buffers that circulates between the two stages.  Every definition follows the
  C++ text; the line numbers in the comments refer to that file.

  The tuning constants are process-wide \<^verbatim>\<open>int\<close> globals (lines 61--66) that the
  command line may overwrite with any \<^verbatim>\<open>int\<close>, so they are kept as one record.

  An \<^verbatim>\<open>int\<close> has 32 bits.  Values are written as integers, and the result of an
  \<^verbatim>\<open>int\<close> operation whose exact result is \<open>x\<close> is \<open>int32 x\<close>: \<open>x\<close> itself when it lies
  between \<open>-2\<^sup>3\<^sup>1\<close> and \<open>2\<^sup>3\<^sup>1 - 1\<close>, and the two's complement wrap-around otherwise
  (what the compiled code computes; the language leaves signed overflow undefined).
\<close>

definition int32 :: "int \<Rightarrow> int" where
  "int32 x = (x + 2147483648) mod 4294967296 - 2147483648"

record config =
  GPUS_PER_NODE :: int
  GLOBAL_BATCH_SIZE :: int
  BATCHES_PER_WORK_ITEM :: int
  TASKS_IN_QUEUE_PER_GPU :: int
  LOAD_WORKERS_PER_NODE :: int
  NUM_CUDA_STREAMS :: int

definition default_config :: config where
  "default_config =
     \<lparr>GPUS_PER_NODE = 1, GLOBAL_BATCH_SIZE = 64, BATCHES_PER_WORK_ITEM = 4,
      TASKS_IN_QUEUE_PER_GPU = 4, LOAD_WORKERS_PER_NODE = 2, NUM_CUDA_STREAMS = 32\<rparr>"

text \<open>Lines 91--93.\<close>

definition frames_per_work_item :: "config \<Rightarrow> int" where
  "frames_per_work_item c = int32 (GLOBAL_BATCH_SIZE c * BATCHES_PER_WORK_ITEM c)"

text \<open>
  \<^verbatim>\<open>VideoMetadata\<close> is declared in \<^verbatim>\<open>lightscan/util/video.h\<close>; the engine reads its
  fields \<^verbatim>\<open>width\<close>, \<^verbatim>\<open>height\<close> and \<^verbatim>\<open>frames\<close>, all of them signed integers
  (\<^verbatim>\<open>std::min(WORK_ITEM_SIZE, meta.frames - allocated_frames)\<close> at line 818 type-checks
  only when \<^verbatim>\<open>meta.frames\<close> is an \<^verbatim>\<open>int\<close>).
\<close>

record VideoMetadata =
  width :: int
  height :: int
  frames :: int

text \<open>The work structs of lines 97--115.\<close>

record VideoWorkItem =
  video_index :: int
  start_frame :: int
  end_frame :: int

record LoadWorkEntry =
  work_item_index :: int

record LoadBufferEntry =
  gpu_device_id :: int
  buffer_index :: int

record EvalWorkEntry =
  work_item_index :: int
  buffer_index :: int

section \<open>Work planner (lines 809--828)\<close>

text \<open>
  The inner \<^verbatim>\<open>while (allocated_frames < meta.frames)\<close> loop; its variables are
  \<^verbatim>\<open>int32_t\<close>.  With a work-item size that is not positive the loop need not advance, so
  it is a partial function: not returning is the value \<open>None\<close>.
\<close>

partial_function (option) allocate_frames ::
  "int \<Rightarrow> int \<Rightarrow> int \<Rightarrow> int \<Rightarrow> VideoWorkItem list \<Rightarrow> VideoWorkItem list option" where
  "allocate_frames WORK_ITEM_SIZE i meta_frames allocated_frames work_items =
     (if allocated_frames < meta_frames then
        (let frames_to_allocate = min WORK_ITEM_SIZE (int32 (meta_frames - allocated_frames));
             item = \<lparr>video_index = i,
                     start_frame = allocated_frames,
                     end_frame = int32 (allocated_frames + frames_to_allocate)\<rparr>
         in allocate_frames WORK_ITEM_SIZE i meta_frames
              (int32 (allocated_frames + frames_to_allocate)) (work_items @ [item]))
      else Some work_items)"

text \<open>The outer \<^verbatim>\<open>for\<close> loop over the videos, in index order, starting at index \<open>i\<close>.\<close>

fun plan_videos ::
  "int \<Rightarrow> int \<Rightarrow> VideoMetadata list \<Rightarrow> VideoWorkItem list \<Rightarrow> VideoWorkItem list option" where
  "plan_videos WORK_ITEM_SIZE i [] work_items = Some work_items"
| "plan_videos WORK_ITEM_SIZE i (meta # rest) work_items =
     (case allocate_frames WORK_ITEM_SIZE i (frames meta) 0 work_items of
        None \<Rightarrow> None
      | Some work_items' \<Rightarrow> plan_videos WORK_ITEM_SIZE (i + 1) rest work_items')"

definition plan_work_items :: "config \<Rightarrow> VideoMetadata list \<Rightarrow> VideoWorkItem list option" where
  "plan_work_items c video_metadata =
     plan_videos (frames_per_work_item c) 0 video_metadata []"

subsection \<open>What the specification asks of the planner\<close>

text \<open>
  The specification's plan: for a video with \<open>F\<close> frames, \<open>ceil (F / W)\<close> items, item
  \<open>k\<close> covering the frames from \<open>k * W\<close> up to \<open>min F ((k + 1) * W)\<close>.
\<close>

definition ceil_div :: "int \<Rightarrow> int \<Rightarrow> int" where
  "ceil_div F W = \<lceil>real_of_int F / real_of_int W\<rceil>"

definition range_item :: "int \<Rightarrow> int \<Rightarrow> int \<Rightarrow> int \<Rightarrow> VideoWorkItem" where
  "range_item W i F k =
     \<lparr>video_index = i, start_frame = k * W, end_frame = min F ((k + 1) * W)\<rparr>"

definition video_ranges :: "int \<Rightarrow> int \<Rightarrow> int \<Rightarrow> VideoWorkItem list" where
  "video_ranges W i F = map (range_item W i F) [0..ceil_div F W - 1]"

fun planned_from :: "int \<Rightarrow> int \<Rightarrow> VideoMetadata list \<Rightarrow> VideoWorkItem list" where
  "planned_from W i [] = []"
| "planned_from W i (meta # rest) =
     video_ranges W i (frames meta) @ planned_from W (i + 1) rest"

text \<open>
  A list of items partitions the frames \<open>0, \<dots>, F - 1\<close> of video \<open>i\<close> into \<open>ceil (F / W)\<close>
  consecutive ranges: every item belongs to the video and is a non-empty range inside
  \<open>[0, F)\<close>; every item but the last has exactly \<open>W\<close> frames and is followed by an item
  that starts where it ends; the last has at most \<open>W\<close> frames and ends at \<open>F\<close>; the first
  starts at \<open>0\<close>; and every frame lies in exactly one item.
\<close>

definition partitions_frames :: "int \<Rightarrow> int \<Rightarrow> int \<Rightarrow> VideoWorkItem list \<Rightarrow> bool" where
  "partitions_frames W i F items \<longleftrightarrow>
     int (length items) = ceil_div F W \<and>
     (\<forall>k < length items.
        video_index (items ! k) = i \<and>
        0 \<le> start_frame (items ! k) \<and>
        start_frame (items ! k) < end_frame (items ! k) \<and>
        end_frame (items ! k) \<le> F \<and>
        (if Suc k = length items
         then end_frame (items ! k) - start_frame (items ! k) \<le> W \<and> end_frame (items ! k) = F
         else end_frame (items ! k) - start_frame (items ! k) = W \<and>
              start_frame (items ! Suc k) = end_frame (items ! k))) \<and>
     (items \<noteq> [] \<longrightarrow> start_frame (items ! 0) = 0) \<and>
     (\<forall>f \<in> set [0..F - 1].
        \<exists>k < length items.
          start_frame (items ! k) \<le> f \<and> f < end_frame (items ! k) \<and>
          (\<forall>j < length items.
             start_frame (items ! j) \<le> f \<and> f < end_frame (items ! j) \<longrightarrow> j = k))"

text \<open>Scenario S1 of the specification: batch size 2, two batches per item, ten frames.\<close>

definition scenario_config :: config where
  "scenario_config =
     \<lparr>GPUS_PER_NODE = 1, GLOBAL_BATCH_SIZE = 2, BATCHES_PER_WORK_ITEM = 2,
      TASKS_IN_QUEUE_PER_GPU = 4, LOAD_WORKERS_PER_NODE = 2, NUM_CUDA_STREAMS = 32\<rparr>"

definition ten_frame_video :: VideoMetadata where
  "ten_frame_video = \<lparr>width = 2, height = 2, frames = 10\<rparr>"

section \<open>Evaluate stage: batches of one work item (lines 511--644)\<close>

text \<open>
  What one \<^verbatim>\<open>net->Forward\<close> call receives: the batch dimension of the \<^verbatim>\<open>net_input\<close>
  blob handed to it, the batch dimension the network's \<^verbatim>\<open>data\<close> blob has at that moment,
  and, for the input positions \<open>0, 1, \<dots>\<close> in order, the slot of the frame buffer whose
  frame was preprocessed into that position (\<^verbatim>\<open>frame_buffer + frame_size * (i +
  frame_offset)\<close>, lines 523 and 604).
\<close>

record forward_pass =
  net_input_batch :: int
  data_blob_batch :: int
  input_slots :: "int list"

text \<open>
  The \<^verbatim>\<open>for (int i = 0; i < batch; ++i)\<close> loops of lines 520 and 601; the slot of input
  position \<open>i\<close> is the \<^verbatim>\<open>int\<close> sum \<^verbatim>\<open>i + frame_offset\<close>.
\<close>

definition preprocess_batch :: "int \<Rightarrow> int \<Rightarrow> int list" where
  "preprocess_batch batch_size frame_offset =
     map (\<lambda>i. int32 (i + frame_offset)) [0..batch_size - 1]"

text \<open>
  The loop of lines 514--581.  The \<^verbatim>\<open>data\<close> blob has been reshaped to
  \<^verbatim>\<open>GLOBAL_BATCH_SIZE\<close> before the loop (lines 506--509).  The sums and differences are
  \<^verbatim>\<open>int\<close> operations.  With a batch size that is not positive the loop need not end.
\<close>

partial_function (option) full_batches ::
  "int \<Rightarrow> VideoWorkItem \<Rightarrow> int \<Rightarrow> forward_pass list \<Rightarrow> (int \<times> forward_pass list) option" where
  "full_batches B work_item current_frame passes =
     (if int32 (current_frame + B) < end_frame work_item then
        (let frame_offset = int32 (current_frame - start_frame work_item);
             pass = \<lparr>net_input_batch = B, data_blob_batch = B,
                     input_slots = preprocess_batch B frame_offset\<rparr>
         in full_batches B work_item (int32 (current_frame + B)) (passes @ [pass]))
      else Some (current_frame, passes))"

text \<open>The epilogue of lines 583--644: a fresh blob of \<^verbatim>\<open>batch_size\<close> frames.\<close>

definition epilogue ::
  "VideoWorkItem \<Rightarrow> int \<Rightarrow> forward_pass list \<Rightarrow> int \<times> forward_pass list" where
  "epilogue work_item current_frame passes =
     (if current_frame < end_frame work_item then
        (let batch_size = int32 (end_frame work_item - current_frame);
             frame_offset = int32 (current_frame - start_frame work_item);
             pass = \<lparr>net_input_batch = batch_size, data_blob_batch = batch_size,
                     input_slots = preprocess_batch batch_size frame_offset\<rparr>
         in (int32 (current_frame + batch_size), passes @ [pass]))
      else (current_frame, passes))"

definition process_from ::
  "int \<Rightarrow> VideoWorkItem \<Rightarrow> int \<Rightarrow> forward_pass list \<Rightarrow> forward_pass list option" where
  "process_from B work_item current_frame passes =
     (case full_batches B work_item current_frame passes of
        None \<Rightarrow> None
      | Some (current_frame', passes') \<Rightarrow> Some (snd (epilogue work_item current_frame' passes')))"

text \<open>One iteration of the evaluate worker on a popped, non-sentinel entry.\<close>

definition evaluate_work_item :: "config \<Rightarrow> VideoWorkItem \<Rightarrow> forward_pass list option" where
  "evaluate_work_item c work_item =
     process_from (GLOBAL_BATCH_SIZE c) work_item (start_frame work_item) []"

text \<open>
  The load worker stores frame \<open>f\<close> of the item in slot \<open>f - start_frame\<close> (lines 316--320),
  so a pass that reads slot \<open>s\<close> evaluates frame \<open>start_frame + s\<close>.
\<close>

definition frames_of_pass :: "VideoWorkItem \<Rightarrow> forward_pass \<Rightarrow> int list" where
  "frames_of_pass work_item p = map (\<lambda>slot. start_frame work_item + slot) (input_slots p)"

text \<open>
  The specification's batching of \<open>N\<close> frames: \<open>N div B\<close> batches of \<open>B\<close> frames, then one
  of \<open>N mod B\<close> frames unless \<open>B\<close> divides \<open>N\<close>.
\<close>

definition batch_sizes :: "int \<Rightarrow> int \<Rightarrow> int list" where
  "batch_sizes B N = replicate (nat (N div B)) B @ (if N mod B = 0 then [] else [N mod B])"

text \<open>
  A pass is neither padded nor cut: both blobs have exactly as many batch entries as
  frames were copied in.
\<close>

definition well_shaped :: "forward_pass \<Rightarrow> bool" where
  "well_shaped p \<longleftrightarrow>
     net_input_batch p = int (length (input_slots p)) \<and> data_blob_batch p = net_input_batch p"

section \<open>Load stage: storing the frames of one work item (lines 294--341)\<close>

text \<open>
  Two FFmpeg functions and one CUDA function decide which bytes the loop writes.  They are
  library code, modelled from their documented behaviour for the arguments the engine
  passes (alignment 1):
  \<^item> \<^verbatim>\<open>av_image_get_buffer_size\<close>: the packed size of an image.  An NV12 image is a plane
    of \<open>w * h\<close> luma bytes and a plane of interleaved chroma pairs, one pair for each
    2 by 2 block; an RGB24 image has three bytes for each pixel.  A width or height that is
    not positive gives the error code \<^verbatim>\<open>AVERROR(EINVAL)\<close>, which is \<open>-22\<close>.
  \<^item> \<^verbatim>\<open>av_image_copy_to_buffer\<close>: writes that many bytes from the destination on.
  \<^item> \<^verbatim>\<open>cudaMemcpy2D(dst, dpitch, src, spitch, width, height, kind)\<close>: copies \<open>height\<close>
    rows of \<open>width\<close> bytes; row \<open>r\<close> goes to \<open>dst + r * dpitch\<close>.

  A written region is a pair \<open>(lo, hi)\<close> of byte offsets from the start of the frame
  buffer: the bytes \<open>lo, \<dots>, hi - 1\<close>.  Sizes are unbounded integers here; the wrap-around
  of \<^verbatim>\<open>size_t\<close> is not modelled.
\<close>

datatype AVPixelFormat = AV_PIX_FMT_NV12 | AV_PIX_FMT_RGB24

definition av_image_get_buffer_size :: "AVPixelFormat \<Rightarrow> int \<Rightarrow> int \<Rightarrow> int" where
  "av_image_get_buffer_size fmt w h =
     (if w \<le> 0 \<or> h \<le> 0 then - 22
      else case fmt of
        AV_PIX_FMT_NV12 \<Rightarrow> w * h + 2 * (((w + 1) div 2) * ((h + 1) div 2))
      | AV_PIX_FMT_RGB24 \<Rightarrow> 3 * w * h)"

definition av_image_copy_to_buffer :: "int \<Rightarrow> AVPixelFormat \<Rightarrow> int \<Rightarrow> int \<Rightarrow> (int \<times> int) list" where
  "av_image_copy_to_buffer dst fmt w h = [(dst, dst + av_image_get_buffer_size fmt w h)]"

definition cudaMemcpy2D :: "int \<Rightarrow> int \<Rightarrow> int \<Rightarrow> int \<Rightarrow> (int \<times> int) list" where
  "cudaMemcpy2D dst dpitch copy_width copy_height =
     map (\<lambda>r. (dst + r * dpitch, dst + r * dpitch + copy_width)) [0..copy_height - 1]"

text \<open>
  The decoder is a collaborator: \<open>decode f\<close> is the frame it returns for frame number
  \<open>f\<close>, \<open>None\<close> for a null pointer.  Of a frame only the dimensions matter here.
\<close>

record AVFrame =
  frame_width :: int
  frame_height :: int

text \<open>
  The value of the local \<^verbatim>\<open>SwsContext* sws_context\<close> (line 306): never assigned
  (\<open>Indeterminate\<close>), null, or a scaler context for frames of some width and height.
\<close>

datatype sws_pointer = Indeterminate | Nullptr | Context int int

text \<open>
  \<^verbatim>\<open>sws_getCachedContext\<close> reads the context it is given, reuses it when it fits the
  requested dimensions and otherwise replaces it; either way the result is a context for
  those dimensions.  (Allocation failure, the \<^verbatim>\<open>assert(false)\<close> of lines 178--181, is
  not modelled.)
\<close>

definition sws_getCachedContext :: "sws_pointer \<Rightarrow> int \<Rightarrow> int \<Rightarrow> sws_pointer" where
  "sws_getCachedContext sws_context w h = Context w h"

text \<open>
  \<^verbatim>\<open>convert_av_frame_to_rgb\<close> (lines 160--214): the new \<^verbatim>\<open>sws_context\<close>, the pointer
  value the cache lookup was given, and the region written to \<^verbatim>\<open>buffer\<close>.
\<close>

definition convert_av_frame_to_rgb ::
  "sws_pointer \<Rightarrow> AVFrame \<Rightarrow> int \<Rightarrow> sws_pointer \<times> sws_pointer \<times> (int \<times> int) list" where
  "convert_av_frame_to_rgb sws_context frame buffer =
     (sws_getCachedContext sws_context (frame_width frame) (frame_height frame),
      sws_context,
      av_image_copy_to_buffer buffer AV_PIX_FMT_RGB24 (frame_width frame) (frame_height frame))"

datatype decode_build = HARDWARE_DECODE | SOFTWARE_DECODE

datatype load_abort = Decode_returned_null | Offset_assertion_failed

text \<open>What the loop did for one frame.\<close>

record frame_store =
  stored_frame :: int
  frames_buffer_offset :: int
  regions_written :: "(int \<times> int) list"
  scaler_lookup_argument :: "sws_pointer option"

record load_context =
  ctx_build :: decode_build
  ctx_decode :: "int \<Rightarrow> AVFrame option"
  ctx_metadata :: VideoMetadata
  ctx_frame_size :: int
  ctx_buffer_size :: int
  ctx_work_item :: VideoWorkItem

text \<open>The loop of lines 308--341, from frame \<open>current_frame\<close> on.\<close>

function load_frames ::
  "load_context \<Rightarrow> sws_pointer \<Rightarrow> int \<Rightarrow> frame_store list \<Rightarrow> load_abort + frame_store list" where
  "load_frames a sws_context current_frame stores =
     (if current_frame < end_frame (ctx_work_item a) then
        (case ctx_decode a current_frame of
           None \<Rightarrow> Inl Decode_returned_null
         | Some frame \<Rightarrow>
             (let offset = ctx_frame_size a * (current_frame - start_frame (ctx_work_item a)) in
              if \<not> offset < ctx_buffer_size a then Inl Offset_assertion_failed
              else
                (case ctx_build a of
                   HARDWARE_DECODE \<Rightarrow>
                     load_frames a sws_context (current_frame + 1)
                       (stores @
                        [\<lparr>stored_frame = current_frame, frames_buffer_offset = offset,
                          regions_written =
                            concat (map (\<lambda>i. cudaMemcpy2D
                                          (offset + i * width (ctx_metadata a) * height (ctx_metadata a))
                                          (width (ctx_metadata a))
                                          (frame_width frame) (frame_height frame))
                                     [0, 1]),
                          scaler_lookup_argument = None\<rparr>])
                 | SOFTWARE_DECODE \<Rightarrow>
                     (case convert_av_frame_to_rgb sws_context frame offset of
                        (sws_context', looked_up, written) \<Rightarrow>
                          load_frames a sws_context' (current_frame + 1)
                            (stores @
                             [\<lparr>stored_frame = current_frame, frames_buffer_offset = offset,
                               regions_written = written,
                               scaler_lookup_argument = Some looked_up\<rparr>])))))
      else Inr stores)"
  by pat_completeness auto
termination
  by (relation "measure (\<lambda>(a, sws_context, current_frame, stores).
                    nat (end_frame (ctx_work_item a) - current_frame))") auto

text \<open>
  The buffer that \<^verbatim>\<open>main\<close> allocates (lines 844--849) is sized with the metadata of
  video 0; the load worker computes the frame size from the metadata of the item's own
  video (lines 296--300) and starts with an unassigned \<^verbatim>\<open>sws_context\<close> (line 306).
\<close>

definition frame_buffer_size :: "config \<Rightarrow> VideoMetadata list \<Rightarrow> int" where
  "frame_buffer_size c video_metadata =
     av_image_get_buffer_size AV_PIX_FMT_NV12
       (width (video_metadata ! 0)) (height (video_metadata ! 0)) * frames_per_work_item c"

definition load_work_item ::
  "decode_build \<Rightarrow> config \<Rightarrow> (int \<Rightarrow> int \<Rightarrow> AVFrame option) \<Rightarrow> VideoMetadata list \<Rightarrow>
   VideoWorkItem \<Rightarrow> load_abort + frame_store list" where
  "load_work_item b c decoder video_metadata item =
     (let meta = video_metadata ! nat (video_index item) in
      load_frames
        \<lparr>ctx_build = b, ctx_decode = decoder (video_index item), ctx_metadata = meta,
         ctx_frame_size = av_image_get_buffer_size AV_PIX_FMT_NV12 (width meta) (height meta),
         ctx_buffer_size = frame_buffer_size c video_metadata,
         ctx_work_item = item\<rparr>
        Indeterminate (start_frame item) [])"

text \<open>All regions lie inside the bytes \<open>lo, \<dots>, hi - 1\<close>.\<close>

definition regions_within :: "int \<Rightarrow> int \<Rightarrow> (int \<times> int) list \<Rightarrow> bool" where
  "regions_within lo hi regions = list_all (\<lambda>(a, b). lo \<le> a \<and> b \<le> hi) regions"

text \<open>
  A smallest failing run: one video of 2 by 2 pixels with a single frame, batch size 1 and
  one batch per work item; the decoder returns frames of the video's own dimensions.
\<close>

definition tiny_config :: config where
  "tiny_config =
     \<lparr>GPUS_PER_NODE = 1, GLOBAL_BATCH_SIZE = 1, BATCHES_PER_WORK_ITEM = 1,
      TASKS_IN_QUEUE_PER_GPU = 1, LOAD_WORKERS_PER_NODE = 1, NUM_CUDA_STREAMS = 32\<rparr>"

definition tiny_video :: VideoMetadata where
  "tiny_video = \<lparr>width = 2, height = 2, frames = 1\<rparr>"

definition tiny_decoder :: "int \<Rightarrow> int \<Rightarrow> AVFrame option" where
  "tiny_decoder video f = Some \<lparr>frame_width = 2, frame_height = 2\<rparr>"

definition tiny_item :: VideoWorkItem where
  "tiny_item = \<lparr>video_index = 0, start_frame = 0, end_frame = 1\<rparr>"

section \<open>Command line and exit status (lines 696--748 and 1069--1076)\<close>

text \<open>
  The variables map that \<^verbatim>\<open>po::parse_command_line\<close> and \<^verbatim>\<open>po::store\<close> produce from a
  well-formed command line: whether \<^verbatim>\<open>--help\<close> was given, and the value of every option
  that was given.
\<close>

record variables_map =
  vm_help :: bool
  vm_video_paths_file :: "string option"
  vm_gpus_per_node :: "int option"
  vm_batch_size :: "int option"
  vm_batches_per_work_item :: "int option"
  vm_tasks_in_queue_per_gpu :: "int option"
  vm_load_workers_per_node :: "int option"

text \<open>
  How the process ends: \<^verbatim>\<open>main\<close> returns a status, \<^verbatim>\<open>exit\<close> is called with one, or an
  exception leaves \<^verbatim>\<open>main\<close> uncaught, which calls \<^verbatim>\<open>std::terminate\<close>.  The flag
  records whether the program printed the option description.
\<close>

datatype po_exception = required_option

datatype process_end = Returns int | Exit_called int | Uncaught po_exception

record outcome =
  ending :: process_end
  usage_printed :: bool

definition EXIT_SUCCESS :: int where
  "EXIT_SUCCESS = 0"

definition EXIT_FAILURE :: int where
  "EXIT_FAILURE = 1"

text \<open>
  The block of lines 698--748.  \<^verbatim>\<open>po::notify\<close> throws \<^verbatim>\<open>required_option\<close> when
  \<^verbatim>\<open>--video_paths_file\<close> is absent; the handler prints the description and returns 1
  when \<^verbatim>\<open>--help\<close> was given and rethrows otherwise.  Without an exception, \<^verbatim>\<open>--help\<close>
  prints and returns 1, and else the given options overwrite the globals.
\<close>

definition override :: "int option \<Rightarrow> int \<Rightarrow> int" where
  "override given global = (case given of None \<Rightarrow> global | Some v \<Rightarrow> v)"

definition parse_options :: "variables_map \<Rightarrow> config \<Rightarrow> outcome + config \<times> string" where
  "parse_options vm globals =
     (case vm_video_paths_file vm of
        None \<Rightarrow>
          if vm_help vm then Inl \<lparr>ending = Returns 1, usage_printed = True\<rparr>
          else Inl \<lparr>ending = Uncaught required_option, usage_printed = False\<rparr>
      | Some video_paths_file \<Rightarrow>
          if vm_help vm then Inl \<lparr>ending = Returns 1, usage_printed = True\<rparr>
          else Inr
            (\<lparr>GPUS_PER_NODE = override (vm_gpus_per_node vm) (GPUS_PER_NODE globals),
              GLOBAL_BATCH_SIZE = override (vm_batch_size vm) (GLOBAL_BATCH_SIZE globals),
              BATCHES_PER_WORK_ITEM =
                override (vm_batches_per_work_item vm) (BATCHES_PER_WORK_ITEM globals),
              TASKS_IN_QUEUE_PER_GPU =
                override (vm_tasks_in_queue_per_gpu vm) (TASKS_IN_QUEUE_PER_GPU globals),
              LOAD_WORKERS_PER_NODE =
                override (vm_load_workers_per_node vm) (LOAD_WORKERS_PER_NODE globals),
              NUM_CUDA_STREAMS = NUM_CUDA_STREAMS globals\<rparr>,
             video_paths_file))"

text \<open>
  What happens after the options are parsed is decided by the environment: some video is
  not preprocessed yet, so the master preprocesses and the pipeline is skipped (lines
  776--795); the pipeline runs to its end; or a \<^verbatim>\<open>pthread_join\<close> fails (lines 1021--1024
  and 1046--1049).  Fatal storage, decoder and device errors abort the process and are not
  completions of a run.
\<close>

datatype run = Preprocessing_only | Pipeline_completes | Load_join_fails | Eval_join_fails

definition main_outcome :: "variables_map \<Rightarrow> run \<Rightarrow> outcome" where
  "main_outcome vm r =
     (case parse_options vm default_config of
        Inl early \<Rightarrow> early
      | Inr (c, video_paths_file) \<Rightarrow>
          (case r of
             Preprocessing_only \<Rightarrow> \<lparr>ending = Returns EXIT_SUCCESS, usage_printed = False\<rparr>
           | Pipeline_completes \<Rightarrow> \<lparr>ending = Returns EXIT_SUCCESS, usage_printed = False\<rparr>
           | Load_join_fails \<Rightarrow> \<lparr>ending = Exit_called EXIT_FAILURE, usage_printed = False\<rparr>
           | Eval_join_fails \<Rightarrow> \<lparr>ending = Exit_called EXIT_FAILURE, usage_printed = False\<rparr>))"

text \<open>Three command lines: no option at all, \<^verbatim>\<open>--help\<close> alone, and the paths file alone.\<close>

definition no_options :: variables_map where
  "no_options =
     \<lparr>vm_help = False, vm_video_paths_file = None, vm_gpus_per_node = None,
      vm_batch_size = None, vm_batches_per_work_item = None,
      vm_tasks_in_queue_per_gpu = None, vm_load_workers_per_node = None\<rparr>"

definition help_only :: variables_map where
  "help_only = no_options\<lparr>vm_help := True\<rparr>"

definition paths_file_only :: variables_map where
  "paths_file_only = no_options\<lparr>vm_video_paths_file := Some ''videos.txt''\<rparr>"

section \<open>One node: queues, buffer pool, workers and shutdown (lines 233--357, 479--652, 833--1051)\<close>

text \<open>
  Modelled from the spec: \<^verbatim>\<open>Queue<T>\<close> is declared in \<^verbatim>\<open>lightscan/util/queue.h\<close>, which is
  not among the sources.  The specification describes it as a FIFO queue whose \<^verbatim>\<open>push\<close>
  appends and whose \<^verbatim>\<open>pop\<close> removes the oldest entry and blocks while the queue is
  empty; \<open>None\<close> stands for a blocked \<^verbatim>\<open>pop\<close>.  A \<^verbatim>\<open>push\<close> never blocks here, which only
  adds behaviours to the ones a bounded queue allows.
\<close>

definition push :: "'a \<Rightarrow> 'a list \<Rightarrow> 'a list" where
  "push x q = q @ [x]"

definition pop :: "'a list \<Rightarrow> ('a \<times> 'a list) option" where
  "pop q = (case q of [] \<Rightarrow> None | x # rest \<Rightarrow> Some (x, rest))"

text \<open>
  The identities that the nested loops of lines 852--866 put into
  \<^verbatim>\<open>empty_load_buffers\<close>, in order.
\<close>

definition buffer_pool :: "config \<Rightarrow> LoadBufferEntry list" where
  "buffer_pool c =
     concat (map (\<lambda>gpu. map (\<lambda>i. \<lparr>gpu_device_id = gpu, buffer_index = i\<rparr>)
                           [0..TASKS_IN_QUEUE_PER_GPU c - 1])
               [0..GPUS_PER_NODE c - 1])"

text \<open>
  Where a load worker stands in its loop (lines 233--357): blocked at
  \<^verbatim>\<open>load_work.pop\<close>; holding a work entry and blocked at \<^verbatim>\<open>empty_load_buffers.pop\<close>;
  holding a buffer and decoding into it; or returned.  Likewise for an evaluate worker
  (lines 479--652).
\<close>

datatype load_pc =
  Wait_work | Wait_buffer LoadWorkEntry | Decoding LoadWorkEntry LoadBufferEntry | Load_returned

datatype eval_pc = Wait_eval | Processing EvalWorkEntry | Eval_returned

text \<open>
  The statements that \<^verbatim>\<open>main\<close> still has to run, from the distribution loop on (lines
  938--1051).
\<close>

datatype main_action =
  Distribute_work | Push_load_sentinel | Join_load int | Push_eval_sentinel int | Join_eval int

definition main_program :: "config \<Rightarrow> main_action list" where
  "main_program c =
     Distribute_work #
     map (\<lambda>i. Push_load_sentinel) [0..LOAD_WORKERS_PER_NODE c - 1] @
     map Join_load [0..LOAD_WORKERS_PER_NODE c - 1] @
     map Push_eval_sentinel [0..GPUS_PER_NODE c - 1] @
     map Join_eval [0..GPUS_PER_NODE c - 1]"

text \<open>
  The state of a node.  The last three fields only observe: every entry ever pushed into
  \<^verbatim>\<open>load_work\<close> and into each \<^verbatim>\<open>eval_work[g]\<close>, and, for every work item an evaluate
  worker finished, the worker's \<^verbatim>\<open>gpu_device_id\<close>, the entry's \<^verbatim>\<open>work_item_index\<close>, and the
  \<^verbatim>\<open>buffer_index\<close> at which it read its own array \<^verbatim>\<open>args.frame_buffers\<close> (line 511), which
  is \<^verbatim>\<open>gpu_frame_buffers[gpu_device_id]\<close> (line 928).
\<close>

record node =
  load_work :: "LoadWorkEntry list"
  empty_load_buffers :: "LoadBufferEntry list"
  eval_work :: "int \<Rightarrow> EvalWorkEntry list"
  load_thread :: "int \<Rightarrow> load_pc"
  eval_thread :: "int \<Rightarrow> eval_pc"
  main_thread :: "main_action list"
  load_work_pushed :: "LoadWorkEntry list"
  eval_work_pushed :: "int \<Rightarrow> EvalWorkEntry list"
  evaluated :: "(int \<times> int \<times> int) list"

text \<open>The state when the worker threads have been created (line 935).\<close>

definition initial :: "config \<Rightarrow> node" where
  "initial c =
     \<lparr>load_work = [], empty_load_buffers = buffer_pool c, eval_work = (\<lambda>g. []),
      load_thread = (\<lambda>w. Wait_work), eval_thread = (\<lambda>g. Wait_eval),
      main_thread = main_program c,
      load_work_pushed = [], eval_work_pushed = (\<lambda>g. []), evaluated = []\<rparr>"

text \<open>
  The atomic steps.  Each queue operation is one step (the queue's operations are its
  linearization points); what a thread does between two queue operations touches only
  what it holds.
  \<^item> \<open>Main_distributes k\<close>: the distribution loop pushes \<^verbatim>\<open>LoadWorkEntry{k}\<close> (lines
    954--956 on the master, 1001--1003 elsewhere).  The master's counter is never \<open>-1\<close>
    and the others push only what is not \<open>-1\<close>.
  \<^item> \<open>Main_proceeds v\<close>: \<^verbatim>\<open>main\<close> runs its next statement; the distribution loop ends, a
    sentinel is pushed, or a finished thread is joined.  The sentinel of an evaluate queue
    leaves \<^verbatim>\<open>buffer_index\<close> unassigned (lines 1037--1039); \<open>v\<close> is the value it happens to
    have.
  \<^item> \<open>Load_pops_work w\<close>, \<open>Load_pops_buffer w\<close>, \<open>Load_pushes_eval w\<close>: lines 237--241,
    276 and 285--354 of load worker \<open>w\<close>.
  \<^item> \<open>Eval_pops g\<close>, \<open>Eval_releases g\<close>: lines 483--487 and 511--651 of the evaluate
    worker of GPU \<open>g\<close>.
\<close>

datatype event =
  Main_distributes int | Main_proceeds int
  | Load_pops_work int | Load_pops_buffer int | Load_pushes_eval int
  | Eval_pops int | Eval_releases int

definition main_distributes :: "int \<Rightarrow> node \<Rightarrow> node option" where
  "main_distributes k s =
     (case main_thread s of
        [] \<Rightarrow> None
      | a # rest \<Rightarrow>
          if a = Distribute_work \<and> k \<noteq> - 1
          then Some (s\<lparr>load_work := push \<lparr>LoadWorkEntry.work_item_index = k\<rparr> (load_work s),
                       load_work_pushed :=
                         load_work_pushed s @ [\<lparr>LoadWorkEntry.work_item_index = k\<rparr>]\<rparr>)
          else None)"

definition main_proceeds :: "int \<Rightarrow> node \<Rightarrow> node option" where
  "main_proceeds v s =
     (case main_thread s of
        [] \<Rightarrow> None
      | a # rest \<Rightarrow>
          (case a of
             Distribute_work \<Rightarrow> Some (s\<lparr>main_thread := rest\<rparr>)
           | Push_load_sentinel \<Rightarrow>
               Some (s\<lparr>load_work := push \<lparr>LoadWorkEntry.work_item_index = - 1\<rparr> (load_work s),
                        load_work_pushed :=
                          load_work_pushed s @ [\<lparr>LoadWorkEntry.work_item_index = - 1\<rparr>],
                        main_thread := rest\<rparr>)
           | Join_load i \<Rightarrow>
               if load_thread s i = Load_returned then Some (s\<lparr>main_thread := rest\<rparr>) else None
           | Push_eval_sentinel i \<Rightarrow>
               Some (s\<lparr>eval_work := (eval_work s)
                          (i := push \<lparr>EvalWorkEntry.work_item_index = - 1, buffer_index = v\<rparr>
                                  (eval_work s i)),
                        eval_work_pushed := (eval_work_pushed s)
                          (i := eval_work_pushed s i @
                                  [\<lparr>EvalWorkEntry.work_item_index = - 1, buffer_index = v\<rparr>]),
                        main_thread := rest\<rparr>)
           | Join_eval i \<Rightarrow>
               if eval_thread s i = Eval_returned then Some (s\<lparr>main_thread := rest\<rparr>) else None))"

definition load_pops_work :: "config \<Rightarrow> int \<Rightarrow> node \<Rightarrow> node option" where
  "load_pops_work c w s =
     (if 0 \<le> w \<and> w < LOAD_WORKERS_PER_NODE c \<and> load_thread s w = Wait_work then
        (case pop (load_work s) of
           None \<Rightarrow> None
         | Some (load_work_entry, rest) \<Rightarrow>
             Some (s\<lparr>load_work := rest,
                      load_thread := (load_thread s)
                        (w := if LoadWorkEntry.work_item_index load_work_entry = - 1
                              then Load_returned else Wait_buffer load_work_entry)\<rparr>))
      else None)"

definition load_pops_buffer :: "config \<Rightarrow> int \<Rightarrow> node \<Rightarrow> node option" where
  "load_pops_buffer c w s =
     (if 0 \<le> w \<and> w < LOAD_WORKERS_PER_NODE c then
        (case load_thread s w of
           Wait_buffer load_work_entry \<Rightarrow>
             (case pop (empty_load_buffers s) of
                None \<Rightarrow> None
              | Some (buffer_entry, rest) \<Rightarrow>
                  Some (s\<lparr>empty_load_buffers := rest,
                           load_thread := (load_thread s)
                             (w := Decoding load_work_entry buffer_entry)\<rparr>))
         | _ \<Rightarrow> None)
      else None)"

definition load_pushes_eval :: "config \<Rightarrow> int \<Rightarrow> node \<Rightarrow> node option" where
  "load_pushes_eval c w s =
     (if 0 \<le> w \<and> w < LOAD_WORKERS_PER_NODE c then
        (case load_thread s w of
           Decoding load_work_entry buffer_entry \<Rightarrow>
             (let eval_work_entry =
                    \<lparr>EvalWorkEntry.work_item_index =
                       LoadWorkEntry.work_item_index load_work_entry,
                     buffer_index = LoadBufferEntry.buffer_index buffer_entry\<rparr>;
                  gpu = gpu_device_id buffer_entry
              in Some (s\<lparr>eval_work := (eval_work s)
                            (gpu := push eval_work_entry (eval_work s gpu)),
                          eval_work_pushed := (eval_work_pushed s)
                            (gpu := eval_work_pushed s gpu @ [eval_work_entry]),
                          load_thread := (load_thread s)(w := Wait_work)\<rparr>))
         | _ \<Rightarrow> None)
      else None)"

definition eval_pops :: "config \<Rightarrow> int \<Rightarrow> node \<Rightarrow> node option" where
  "eval_pops c g s =
     (if 0 \<le> g \<and> g < GPUS_PER_NODE c \<and> eval_thread s g = Wait_eval then
        (case pop (eval_work s g) of
           None \<Rightarrow> None
         | Some (work_entry, rest) \<Rightarrow>
             Some (s\<lparr>eval_work := (eval_work s)(g := rest),
                      eval_thread := (eval_thread s)
                        (g := if EvalWorkEntry.work_item_index work_entry = - 1
                              then Eval_returned else Processing work_entry)\<rparr>))
      else None)"

definition eval_releases :: "config \<Rightarrow> int \<Rightarrow> node \<Rightarrow> node option" where
  "eval_releases c g s =
     (if 0 \<le> g \<and> g < GPUS_PER_NODE c then
        (case eval_thread s g of
           Processing work_entry \<Rightarrow>
             Some (s\<lparr>empty_load_buffers :=
                        push \<lparr>gpu_device_id = g,
                              buffer_index = EvalWorkEntry.buffer_index work_entry\<rparr>
                          (empty_load_buffers s),
                      eval_thread := (eval_thread s)(g := Wait_eval),
                      evaluated := evaluated s @
                        [(g, EvalWorkEntry.work_item_index work_entry,
                          EvalWorkEntry.buffer_index work_entry)]\<rparr>)
         | _ \<Rightarrow> None)
      else None)"

fun step :: "config \<Rightarrow> event \<Rightarrow> node \<Rightarrow> node option" where
  "step c (Main_distributes k) s = main_distributes k s"
| "step c (Main_proceeds v) s = main_proceeds v s"
| "step c (Load_pops_work w) s = load_pops_work c w s"
| "step c (Load_pops_buffer w) s = load_pops_buffer c w s"
| "step c (Load_pushes_eval w) s = load_pushes_eval c w s"
| "step c (Eval_pops g) s = eval_pops c g s"
| "step c (Eval_releases g) s = eval_releases c g s"

text \<open>A run: the events of a schedule, one after the other; \<open>None\<close> when one cannot happen.\<close>

fun run_from :: "config \<Rightarrow> node \<Rightarrow> event list \<Rightarrow> node option" where
  "run_from c s [] = Some s"
| "run_from c s (e # es) =
     (case step c e s of None \<Rightarrow> None | Some s' \<Rightarrow> run_from c s' es)"

definition run_node :: "config \<Rightarrow> event list \<Rightarrow> node option" where
  "run_node c es = run_from c (initial c) es"

subsection \<open>Accounting for buffers\<close>

text \<open>
  The four terms of the buffer count for GPU \<open>g\<close>.  The third counts the entries of
  \<^verbatim>\<open>eval_work[g]\<close> that carry a buffer, which are the entries that are not sentinels;
  \<open>buffers_counting_sentinels\<close> counts every entry of the queue instead.
\<close>

definition loader_holds :: "int \<Rightarrow> load_pc \<Rightarrow> bool" where
  "loader_holds g pc = (case pc of Decoding e b \<Rightarrow> gpu_device_id b = g | _ \<Rightarrow> False)"

definition evaluator_holds :: "eval_pc \<Rightarrow> bool" where
  "evaluator_holds pc = (case pc of Processing e \<Rightarrow> True | _ \<Rightarrow> False)"

definition carries_buffer :: "EvalWorkEntry \<Rightarrow> bool" where
  "carries_buffer e \<longleftrightarrow> EvalWorkEntry.work_item_index e \<noteq> - 1"

definition buffers_accounted :: "config \<Rightarrow> node \<Rightarrow> int \<Rightarrow> int" where
  "buffers_accounted c s g =
     int (length (filter (\<lambda>b. gpu_device_id b = g) (empty_load_buffers s))) +
     int (length (filter (\<lambda>w. loader_holds g (load_thread s w))
                    [0..LOAD_WORKERS_PER_NODE c - 1])) +
     int (length (filter carries_buffer (eval_work s g))) +
     (if evaluator_holds (eval_thread s g) then 1 else 0)"

definition buffers_counting_sentinels :: "config \<Rightarrow> node \<Rightarrow> int \<Rightarrow> int" where
  "buffers_counting_sentinels c s g =
     int (length (filter (\<lambda>b. gpu_device_id b = g) (empty_load_buffers s))) +
     int (length (filter (\<lambda>w. loader_holds g (load_thread s w))
                    [0..LOAD_WORKERS_PER_NODE c - 1])) +
     int (length (eval_work s g)) +
     (if evaluator_holds (eval_thread s g) then 1 else 0)"

text \<open>The buffer identities that are somewhere in the node, with multiplicity.\<close>

definition held_by_loader :: "load_pc \<Rightarrow> LoadBufferEntry multiset" where
  "held_by_loader pc = (case pc of Decoding e b \<Rightarrow> {#b#} | _ \<Rightarrow> {#})"

definition identity_of :: "int \<Rightarrow> EvalWorkEntry \<Rightarrow> LoadBufferEntry" where
  "identity_of g e = \<lparr>gpu_device_id = g, buffer_index = EvalWorkEntry.buffer_index e\<rparr>"

definition queued_for :: "int \<Rightarrow> EvalWorkEntry list \<Rightarrow> LoadBufferEntry multiset" where
  "queued_for g q = mset (map (identity_of g) (filter carries_buffer q))"

definition held_by_evaluator :: "int \<Rightarrow> eval_pc \<Rightarrow> LoadBufferEntry multiset" where
  "held_by_evaluator g pc = (case pc of Processing e \<Rightarrow> {#identity_of g e#} | _ \<Rightarrow> {#})"

definition buffer_identities :: "config \<Rightarrow> node \<Rightarrow> LoadBufferEntry multiset" where
  "buffer_identities c s =
     mset (empty_load_buffers s) +
     (\<Sum>w\<leftarrow>[0..LOAD_WORKERS_PER_NODE c - 1]. held_by_loader (load_thread s w)) +
     (\<Sum>g\<leftarrow>[0..GPUS_PER_NODE c - 1]. queued_for g (eval_work s g)) +
     (\<Sum>g\<leftarrow>[0..GPUS_PER_NODE c - 1]. held_by_evaluator g (eval_thread s g))"

text \<open>
  A load worker that holds a work entry popped one that is not a sentinel (line 239).
\<close>

definition holds_work :: "load_pc \<Rightarrow> bool" where
  "holds_work pc =
     (case pc of
        Wait_buffer e \<Rightarrow> LoadWorkEntry.work_item_index e \<noteq> - 1
      | Decoding e b \<Rightarrow> LoadWorkEntry.work_item_index e \<noteq> - 1
      | _ \<Rightarrow> True)"

definition loaders_hold_work :: "node \<Rightarrow> bool" where
  "loaders_hold_work s \<longleftrightarrow> (\<forall>w. holds_work (load_thread s w))"

text \<open>
  Affinity.  Every entry ever pushed into \<^verbatim>\<open>eval_work[g]\<close> that is not a sentinel names, with
  \<open>g\<close>, one of the buffers allocated for GPU \<open>g\<close> (lines 852--866); the entry an evaluate
  worker is processing was pushed into its own queue; and every evaluation read GPU
  \<open>g\<close>'s array at the index of an entry pushed into \<^verbatim>\<open>eval_work[g]\<close>.
\<close>

definition affine :: "config \<Rightarrow> node \<Rightarrow> bool" where
  "affine c s \<longleftrightarrow>
     (\<forall>g e. e \<in> set (eval_work_pushed s g) \<and> carries_buffer e \<longrightarrow>
        identity_of g e \<in> set (buffer_pool c)) \<and>
     (\<forall>g e. eval_thread s g = Processing e \<longrightarrow>
        carries_buffer e \<and> e \<in> set (eval_work_pushed s g)) \<and>
     list_all (\<lambda>(g, item, i).
          \<lparr>EvalWorkEntry.work_item_index = item, buffer_index = i\<rparr> \<in> set (eval_work_pushed s g) \<and>
          item \<noteq> - 1)
       (evaluated s)"

subsection \<open>Runs of the smallest node\<close>

text \<open>
  One GPU, one buffer, one load worker.  \<open>sentinel_schedule\<close>: no work is distributed
  and \<^verbatim>\<open>main\<close> gets as far as pushing the sentinel of \<^verbatim>\<open>eval_work[0]\<close>.
  \<open>complete_schedule\<close>: one work item goes through both stages and the node shuts down.
  \<open>decoding_schedule\<close> and \<open>queued_schedule\<close> stop while the item is being decoded and
  while it waits in \<^verbatim>\<open>eval_work[0]\<close>.
\<close>

definition sentinel_schedule :: "event list" where
  "sentinel_schedule =
     [Main_proceeds 0, Main_proceeds 0, Load_pops_work 0, Main_proceeds 0, Main_proceeds 7]"

subsection \<open>Accounting for sentinels\<close>

definition is_load_sentinel :: "LoadWorkEntry \<Rightarrow> bool" where
  "is_load_sentinel e \<longleftrightarrow> LoadWorkEntry.work_item_index e = - 1"

definition is_eval_sentinel :: "EvalWorkEntry \<Rightarrow> bool" where
  "is_eval_sentinel e \<longleftrightarrow> EvalWorkEntry.work_item_index e = - 1"

text \<open>
  \<^verbatim>\<open>main\<close> runs its statements in order; a joined load worker has returned; the pushes
  into \<^verbatim>\<open>load_work\<close> are work entries followed by the sentinels pushed so far; and every
  evaluate queue has received its sentinel exactly when \<^verbatim>\<open>main\<close> is past the push.
\<close>

definition main_on_program :: "config \<Rightarrow> node \<Rightarrow> bool" where
  "main_on_program c s \<longleftrightarrow> suffix (main_thread s) (main_program c)"

definition joined_loaders_returned :: "config \<Rightarrow> node \<Rightarrow> bool" where
  "joined_loaders_returned c s \<longleftrightarrow>
     (\<forall>w. 0 \<le> w \<and> w < LOAD_WORKERS_PER_NODE c \<and> Join_load w \<notin> set (main_thread s) \<longrightarrow>
        load_thread s w = Load_returned)"

definition load_sentinels_after_work :: "config \<Rightarrow> node \<Rightarrow> bool" where
  "load_sentinels_after_work c s \<longleftrightarrow>
     (\<exists>work n.
        load_work_pushed s = work @ replicate n \<lparr>LoadWorkEntry.work_item_index = - 1\<rparr> \<and>
        \<not> list_ex is_load_sentinel work \<and>
        n + count_list (main_thread s) Push_load_sentinel = nat (LOAD_WORKERS_PER_NODE c) \<and>
        (Distribute_work \<in> set (main_thread s) \<longrightarrow> n = 0))"

definition one_eval_sentinel :: "config \<Rightarrow> node \<Rightarrow> bool" where
  "one_eval_sentinel c s \<longleftrightarrow>
     (\<forall>g. 0 \<le> g \<and> g < GPUS_PER_NODE c \<longrightarrow>
        length (filter is_eval_sentinel (eval_work_pushed s g)) +
        count_list (main_thread s) (Push_eval_sentinel g) = 1)"

definition shutdown_invariant :: "config \<Rightarrow> node \<Rightarrow> bool" where
  "shutdown_invariant c s \<longleftrightarrow>
     loaders_hold_work s \<and> main_on_program c s \<and> joined_loaders_returned c s \<and>
     load_sentinels_after_work c s \<and> one_eval_sentinel c s"

definition complete_schedule :: "event list" where
  "complete_schedule =
     [Main_distributes 0, Load_pops_work 0, Load_pops_buffer 0, Load_pushes_eval 0,
      Eval_pops 0, Eval_releases 0,
      Main_proceeds 0, Main_proceeds 0, Load_pops_work 0, Main_proceeds 0,
      Main_proceeds 7, Eval_pops 0, Main_proceeds 0]"

definition complete_state :: node where
  "complete_state =
     \<lparr>load_work = [], empty_load_buffers = [\<lparr>gpu_device_id = 0, buffer_index = 0\<rparr>],
      eval_work = (\<lambda>g. [])(0 := []),
      load_thread = (\<lambda>w. Wait_work)(0 := Load_returned),
      eval_thread = (\<lambda>g. Wait_eval)(0 := Eval_returned),
      main_thread = [],
      load_work_pushed =
        [\<lparr>LoadWorkEntry.work_item_index = 0\<rparr>, \<lparr>LoadWorkEntry.work_item_index = - 1\<rparr>],
      eval_work_pushed = (\<lambda>g. [])
        (0 := [\<lparr>EvalWorkEntry.work_item_index = 0, buffer_index = 0\<rparr>,
               \<lparr>EvalWorkEntry.work_item_index = - 1, buffer_index = 7\<rparr>]),
      evaluated = [(0, 0, 0)]\<rparr>"

definition decoding_schedule :: "event list" where
  "decoding_schedule = [Main_distributes 0, Load_pops_work 0, Load_pops_buffer 0]"

definition decoding_state :: node where
  "decoding_state =
     \<lparr>load_work = [], empty_load_buffers = [],
      eval_work = (\<lambda>g. []),
      load_thread = (\<lambda>w. Wait_work)
        (0 := Decoding \<lparr>LoadWorkEntry.work_item_index = 0\<rparr>
                \<lparr>gpu_device_id = 0, buffer_index = 0\<rparr>),
      eval_thread = (\<lambda>g. Wait_eval),
      main_thread = main_program tiny_config,
      load_work_pushed = [\<lparr>LoadWorkEntry.work_item_index = 0\<rparr>],
      eval_work_pushed = (\<lambda>g. []),
      evaluated = []\<rparr>"

definition queued_schedule :: "event list" where
  "queued_schedule =
     [Main_distributes 0, Load_pops_work 0, Load_pops_buffer 0, Load_pushes_eval 0]"

definition queued_state :: node where
  "queued_state =
     \<lparr>load_work = [], empty_load_buffers = [],
      eval_work = (\<lambda>g. [])(0 := [\<lparr>EvalWorkEntry.work_item_index = 0, buffer_index = 0\<rparr>]),
      load_thread = (\<lambda>w. Wait_work)(0 := Wait_work),
      eval_thread = (\<lambda>g. Wait_eval),
      main_thread = main_program tiny_config,
      load_work_pushed = [\<lparr>LoadWorkEntry.work_item_index = 0\<rparr>],
      eval_work_pushed =
        (\<lambda>g. [])(0 := [\<lparr>EvalWorkEntry.work_item_index = 0, buffer_index = 0\<rparr>]),
      evaluated = []\<rparr>"

subsection \<open>Accounting for work items\<close>

text \<open>
  Where the work items given to a node are: still in \<^verbatim>\<open>load_work\<close>, held by a load worker
  (between lines 237 and 354), in an \<^verbatim>\<open>eval_work\<close> queue, held by an evaluate worker
  (between lines 483 and 651), or evaluated.  Sentinels are left out of every term.
\<close>

definition loader_work :: "load_pc \<Rightarrow> int multiset" where
  "loader_work pc =
     (case pc of
        Wait_buffer e \<Rightarrow> {#LoadWorkEntry.work_item_index e#}
      | Decoding e b \<Rightarrow> {#LoadWorkEntry.work_item_index e#}
      | _ \<Rightarrow> {#})"

definition work_of :: "LoadWorkEntry list \<Rightarrow> int multiset" where
  "work_of q = mset (map LoadWorkEntry.work_item_index (filter (\<lambda>e. \<not> is_load_sentinel e) q))"

definition queued_work :: "EvalWorkEntry list \<Rightarrow> int multiset" where
  "queued_work q = mset (map EvalWorkEntry.work_item_index (filter carries_buffer q))"

definition evaluator_work :: "eval_pc \<Rightarrow> int multiset" where
  "evaluator_work pc =
     (case pc of Processing e \<Rightarrow> {#EvalWorkEntry.work_item_index e#} | _ \<Rightarrow> {#})"

definition work_in_node :: "config \<Rightarrow> node \<Rightarrow> int multiset" where
  "work_in_node c s =
     work_of (load_work s) +
     (\<Sum>w\<leftarrow>[0..LOAD_WORKERS_PER_NODE c - 1]. loader_work (load_thread s w)) +
     (\<Sum>g\<leftarrow>[0..GPUS_PER_NODE c - 1]. queued_work (eval_work s g)) +
     (\<Sum>g\<leftarrow>[0..GPUS_PER_NODE c - 1]. evaluator_work (eval_thread s g)) +
     mset (map (\<lambda>(g, item, i). item) (evaluated s))"

text \<open>Every work item pushed into \<^verbatim>\<open>load_work\<close> is in exactly one of these places.\<close>

definition work_conserved :: "config \<Rightarrow> node \<Rightarrow> bool" where
  "work_conserved c s \<longleftrightarrow> work_in_node c s = work_of (load_work_pushed s)"

text \<open>
  The queues are first-in first-out: what is in a queue is the end of what was pushed into
  it.
\<close>

definition load_queue_fifo :: "node \<Rightarrow> bool" where
  "load_queue_fifo s \<longleftrightarrow> suffix (load_work s) (load_work_pushed s)"

definition eval_queue_fifo :: "node \<Rightarrow> bool" where
  "eval_queue_fifo s \<longleftrightarrow> (\<forall>g. suffix (eval_work s g) (eval_work_pushed s g))"

text \<open>
  A load worker returns on popping a sentinel (line 239), so once one has returned
  \<^verbatim>\<open>load_work\<close> holds sentinels only.  \<^verbatim>\<open>main\<close> passes the join of an evaluate worker (line
  1049) only when that worker has returned.
\<close>

definition loaders_drained :: "node \<Rightarrow> bool" where
  "loaders_drained s \<longleftrightarrow>
     ((\<exists>w. load_thread s w = Load_returned) \<longrightarrow>
        list_all is_load_sentinel (load_work s) \<and> Distribute_work \<notin> set (main_thread s))"

definition joined_evaluators_returned :: "config \<Rightarrow> node \<Rightarrow> bool" where
  "joined_evaluators_returned c s \<longleftrightarrow>
     (\<forall>g. 0 \<le> g \<and> g < GPUS_PER_NODE c \<and> Join_eval g \<notin> set (main_thread s) \<longrightarrow>
        eval_thread s g = Eval_returned)"

text \<open>
  The sentinel of \<^verbatim>\<open>eval_work[g]\<close> is pushed after the load workers have been joined (lines
  1021--1031), so nothing is pushed behind it; an evaluate worker that has returned (line
  485) has emptied its queue.
\<close>

definition eval_sentinel_last :: "config \<Rightarrow> node \<Rightarrow> bool" where
  "eval_sentinel_last c s \<longleftrightarrow>
     (\<forall>g. 0 \<le> g \<and> g < GPUS_PER_NODE c \<longrightarrow>
        list_all carries_buffer (butlast (eval_work_pushed s g)))"

definition evaluators_drained :: "config \<Rightarrow> node \<Rightarrow> bool" where
  "evaluators_drained c s \<longleftrightarrow>
     (\<forall>g. 0 \<le> g \<and> g < GPUS_PER_NODE c \<and> eval_thread s g = Eval_returned \<longrightarrow>
        eval_work s g = [] \<and> list_ex is_eval_sentinel (eval_work_pushed s g))"

text \<open>The invariant of the runs of a node that these facts make up.\<close>

definition node_work_invariant :: "config \<Rightarrow> node \<Rightarrow> bool" where
  "node_work_invariant c s \<longleftrightarrow>
     work_conserved c s \<and> load_queue_fifo s \<and> eval_queue_fifo s \<and> loaders_drained s \<and>
     joined_evaluators_returned c s \<and> eval_sentinel_last c s \<and> evaluators_drained c s"

section \<open>Cluster dispatcher (lines 938--1008)\<close>

text \<open>
  The master (rank 0) and the other nodes exchange single integers with \<^verbatim>\<open>MPI_Send\<close> and
  \<^verbatim>\<open>MPI_Recv\<close>.  MPI is a library; a message that was sent stays in flight until the
  matching receive takes it.  \<open>requests\<close> holds the ranks whose ``more work'' message the
  master has not received yet, \<open>replies\<close> the master's answers that their destination has
  not received yet, as pairs of destination and value.  \<open>pushed\<close> observes, in order, every
  \<^verbatim>\<open>LoadWorkEntry\<close> that the distribution code of a node pushed into that node's
  \<^verbatim>\<open>load_work\<close>, as pairs of rank and work item index.
\<close>

datatype node_pc = Polling | Awaiting_reply | No_more_work

record cluster =
  next_work_item_to_allocate :: int
  workers_done :: int
  requests :: "int list"
  replies :: "(int \<times> int) list"
  node_state :: "int \<Rightarrow> node_pc"
  pushed :: "(int \<times> int) list"

definition cluster_start :: cluster where
  "cluster_start =
     \<lparr>next_work_item_to_allocate = 0, workers_done = 1, requests = [], replies = [],
      node_state = (\<lambda>r. Polling), pushed = []\<rparr>"

text \<open>
  The steps.  \<open>n\<close> is \<^verbatim>\<open>work_items.size()\<close>.  The sizes of a node's queues change under
  the hands of its workers while an iteration adds them up one after the other (lines
  949--952 and 986--989), so the sum \<open>local_work\<close> that it arrives at comes with the event;
  being a sum of sizes, it is not negative.
  \<^item> \<open>Master_iterates local_work source\<close>: one iteration of the loop of lines 942--970.
    Below the high-water mark the master pushes the next index into its own queue;
    otherwise, with other nodes present, it receives the request of \<open>source\<close> and replies
    with the next index; with no other node it only yields.
  \<^item> \<open>Master_drains source\<close>: one iteration of the loop of lines 972--982.
  \<^item> \<open>Node_polls r local_work\<close>: lines 986--993 of rank \<open>r\<close>, up to the send.
  \<^item> \<open>Node_receives r\<close>: lines 994--1004 of rank \<open>r\<close>, from the receive on.
\<close>

text \<open>
  \<^verbatim>\<open>static_cast<int>(work_items.size())\<close>, the bound of the loop of line 942, and the
  \<^verbatim>\<open>int\<close> product of line 953.  The counters \<^verbatim>\<open>next_work_item_to_allocate\<close> and
  \<^verbatim>\<open>workers_done\<close> are incremented only below an \<^verbatim>\<open>int\<close> bound, so their increments do not
  overflow.
\<close>

definition item_count :: "nat \<Rightarrow> int" where
  "item_count n = int32 (int n)"

datatype cluster_event =
  Master_iterates int int | Master_drains int | Node_polls int int | Node_receives int

definition high_water :: "config \<Rightarrow> int" where
  "high_water c = int32 (GPUS_PER_NODE c * TASKS_IN_QUEUE_PER_GPU c)"

definition master_iterates ::
  "config \<Rightarrow> nat \<Rightarrow> int \<Rightarrow> int \<Rightarrow> int \<Rightarrow> cluster \<Rightarrow> cluster option" where
  "master_iterates c n num_nodes local_work source s =
     (if next_work_item_to_allocate s < item_count n \<and> 0 \<le> local_work then
        if local_work < high_water c then
          Some (s\<lparr>pushed := pushed s @ [(0, next_work_item_to_allocate s)],
                  next_work_item_to_allocate := next_work_item_to_allocate s + 1\<rparr>)
        else if num_nodes > 1 then
          if source \<in> set (requests s) then
            Some (s\<lparr>requests := remove1 source (requests s),
                    replies := replies s @ [(source, next_work_item_to_allocate s)],
                    next_work_item_to_allocate := next_work_item_to_allocate s + 1\<rparr>)
          else None
        else Some s
      else None)"

definition master_drains :: "nat \<Rightarrow> int \<Rightarrow> int \<Rightarrow> cluster \<Rightarrow> cluster option" where
  "master_drains n num_nodes source s =
     (if \<not> next_work_item_to_allocate s < item_count n \<and> workers_done s < num_nodes \<and>
         source \<in> set (requests s)
      then Some (s\<lparr>requests := remove1 source (requests s),
                   replies := replies s @ [(source, - 1)],
                   workers_done := workers_done s + 1\<rparr>)
      else None)"

definition node_polls :: "config \<Rightarrow> int \<Rightarrow> int \<Rightarrow> int \<Rightarrow> cluster \<Rightarrow> cluster option" where
  "node_polls c num_nodes r local_work s =
     (if 1 \<le> r \<and> r < num_nodes \<and> node_state s r = Polling \<and> 0 \<le> local_work then
        if local_work < high_water c then
          Some (s\<lparr>requests := requests s @ [r],
                  node_state := (node_state s)(r := Awaiting_reply)\<rparr>)
        else Some s
      else None)"

definition node_receives :: "int \<Rightarrow> cluster \<Rightarrow> cluster option" where
  "node_receives r s =
     (if node_state s r = Awaiting_reply then
        (case map_of (replies s) r of
           None \<Rightarrow> None
         | Some next_item \<Rightarrow>
             if next_item = - 1 then
               Some (s\<lparr>replies := remove1 (r, next_item) (replies s),
                       node_state := (node_state s)(r := No_more_work)\<rparr>)
             else
               Some (s\<lparr>replies := remove1 (r, next_item) (replies s),
                       pushed := pushed s @ [(r, next_item)],
                       node_state := (node_state s)(r := Polling)\<rparr>))
      else None)"

fun cluster_step ::
  "config \<Rightarrow> nat \<Rightarrow> int \<Rightarrow> cluster_event \<Rightarrow> cluster \<Rightarrow> cluster option" where
  "cluster_step c n num_nodes (Master_iterates local_work source) s =
     master_iterates c n num_nodes local_work source s"
| "cluster_step c n num_nodes (Master_drains source) s = master_drains n num_nodes source s"
| "cluster_step c n num_nodes (Node_polls r local_work) s = node_polls c num_nodes r local_work s"
| "cluster_step c n num_nodes (Node_receives r) s = node_receives r s"

fun cluster_run_from ::
  "config \<Rightarrow> nat \<Rightarrow> int \<Rightarrow> cluster \<Rightarrow> cluster_event list \<Rightarrow> cluster option" where
  "cluster_run_from c n num_nodes s [] = Some s"
| "cluster_run_from c n num_nodes s (e # es) =
     (case cluster_step c n num_nodes e s of
        None \<Rightarrow> None
      | Some s' \<Rightarrow> cluster_run_from c n num_nodes s' es)"

definition run_cluster :: "config \<Rightarrow> nat \<Rightarrow> int \<Rightarrow> cluster_event list \<Rightarrow> cluster option" where
  "run_cluster c n num_nodes es = cluster_run_from c n num_nodes cluster_start es"

text \<open>
  Distribution is over: the master has left both loops and every other node has received
  its \<open>-1\<close>.
\<close>

definition distribution_over :: "nat \<Rightarrow> int \<Rightarrow> cluster \<Rightarrow> bool" where
  "distribution_over n num_nodes s \<longleftrightarrow>
     \<not> next_work_item_to_allocate s < item_count n \<and> \<not> workers_done s < num_nodes \<and>
     list_all (\<lambda>r. node_state s r = No_more_work) [1..num_nodes - 1]"

text \<open>
  What the proof maintains: the indices handed out so far are \<open>0, \<dots>, next - 1\<close>, each once,
  and each is either pushed or in flight to a node that is waiting for it; every node has
  at most one message in flight.
\<close>

definition in_flight :: "cluster \<Rightarrow> int list" where
  "in_flight s = filter (\<lambda>v. v \<noteq> - 1) (map snd (replies s))"

definition cluster_invariant :: "nat \<Rightarrow> int \<Rightarrow> cluster \<Rightarrow> bool" where
  "cluster_invariant n num_nodes s \<longleftrightarrow>
     0 \<le> next_work_item_to_allocate s \<and> next_work_item_to_allocate s \<le> item_count n \<and>
     mset (map snd (pushed s)) + mset (in_flight s) =
       mset [0..next_work_item_to_allocate s - 1] \<and>
     distinct (requests s @ map fst (replies s)) \<and>
     (\<forall>r \<in> set (requests s @ map fst (replies s)).
        1 \<le> r \<and> r < num_nodes \<and> node_state s r = Awaiting_reply)"

text \<open>Scenario S2 of the specification in small: two nodes, two work items.\<close>

definition two_node_schedule :: "cluster_event list" where
  "two_node_schedule =
     [Master_iterates 0 0, Node_polls 1 0, Master_iterates 4 1, Node_receives 1,
      Node_polls 1 0, Master_drains 1, Node_receives 1]"

section \<open>The cluster as a whole: dispatchers and nodes together\<close>

text \<open>
  Every rank runs \<^verbatim>\<open>main\<close>: its distribution code (lines 938--1008) and then the shutdown
  (lines 1010--1051), next to its own load and evaluate workers.  The state of the cluster
  is the state of the distribution code on all ranks together with the state of every
  node.
  \<^item> \<open>Dispatch e\<close>: a step of the distribution code.  When it pushes an entry (line 956 on
    the master, line 1003 elsewhere), the entry goes into \<^verbatim>\<open>load_work\<close> of the rank that
    pushes: this is the step \<open>Main_distributes\<close> of that node.
  \<^item> \<open>At_node r e\<close>: any other step of a thread of rank \<open>r\<close>.  \<^verbatim>\<open>main\<close> goes on to the
    shutdown only when its distribution code has ended: on the master when both loops
    have ended, on another rank when it has received \<open>-1\<close> (line 999).
\<close>

record system =
  dispatcher :: cluster
  node_of :: "int \<Rightarrow> node"

definition system_start :: "config \<Rightarrow> system" where
  "system_start c = \<lparr>dispatcher = cluster_start, node_of = (\<lambda>r. initial c)\<rparr>"

datatype system_event = Dispatch cluster_event | At_node int event

definition loops_ended :: "nat \<Rightarrow> int \<Rightarrow> cluster \<Rightarrow> int \<Rightarrow> bool" where
  "loops_ended n num_nodes d r \<longleftrightarrow>
     (if r = 0
      then \<not> next_work_item_to_allocate d < item_count n \<and> \<not> workers_done d < num_nodes
      else node_state d r = No_more_work)"

definition dispatch ::
  "config \<Rightarrow> nat \<Rightarrow> int \<Rightarrow> cluster_event \<Rightarrow> system \<Rightarrow> system option" where
  "dispatch c n num_nodes e S =
     (case cluster_step c n num_nodes e (dispatcher S) of
        None \<Rightarrow> None
      | Some d \<Rightarrow>
          (case drop (length (pushed (dispatcher S))) (pushed d) of
             [] \<Rightarrow> Some (S\<lparr>dispatcher := d\<rparr>)
           | (r, k) # later \<Rightarrow>
               (case step c (Main_distributes k) (node_of S r) of
                  None \<Rightarrow> None
                | Some t \<Rightarrow> Some (S\<lparr>dispatcher := d, node_of := (node_of S)(r := t)\<rparr>))))"

text \<open>The steps of a node that are not pushes of the distribution code.\<close>

definition own_step :: "event \<Rightarrow> bool" where
  "own_step e = (case e of Main_distributes k \<Rightarrow> False | _ \<Rightarrow> True)"

definition leaves_distribution :: "event \<Rightarrow> node \<Rightarrow> bool" where
  "leaves_distribution e t =
     (case e of
        Main_proceeds v \<Rightarrow>
          (case main_thread t of [] \<Rightarrow> False | a # rest \<Rightarrow> a = Distribute_work)
      | _ \<Rightarrow> False)"

definition at_node ::
  "config \<Rightarrow> nat \<Rightarrow> int \<Rightarrow> int \<Rightarrow> event \<Rightarrow> system \<Rightarrow> system option" where
  "at_node c n num_nodes r e S =
     (if 0 \<le> r \<and> r < num_nodes \<and> own_step e \<and>
         (if leaves_distribution e (node_of S r)
          then loops_ended n num_nodes (dispatcher S) r else True)
      then (case step c e (node_of S r) of
              None \<Rightarrow> None
            | Some t \<Rightarrow> Some (S\<lparr>node_of := (node_of S)(r := t)\<rparr>))
      else None)"

fun system_step ::
  "config \<Rightarrow> nat \<Rightarrow> int \<Rightarrow> system_event \<Rightarrow> system \<Rightarrow> system option" where
  "system_step c n num_nodes (Dispatch e) S = dispatch c n num_nodes e S"
| "system_step c n num_nodes (At_node r e) S = at_node c n num_nodes r e S"

fun system_run_from ::
  "config \<Rightarrow> nat \<Rightarrow> int \<Rightarrow> system \<Rightarrow> system_event list \<Rightarrow> system option" where
  "system_run_from c n num_nodes S [] = Some S"
| "system_run_from c n num_nodes S (e # es) =
     (case system_step c n num_nodes e S of
        None \<Rightarrow> None
      | Some S' \<Rightarrow> system_run_from c n num_nodes S' es)"

definition run_system :: "config \<Rightarrow> nat \<Rightarrow> int \<Rightarrow> system_event list \<Rightarrow> system option" where
  "run_system c n num_nodes es = system_run_from c n num_nodes (system_start c) es"

text \<open>\<^verbatim>\<open>main\<close> has returned on every rank.\<close>

definition all_returned :: "int \<Rightarrow> system \<Rightarrow> bool" where
  "all_returned num_nodes S \<longleftrightarrow>
     list_all (\<lambda>r. main_thread (node_of S r) = []) [0..num_nodes - 1]"

text \<open>The work items evaluated so far on all ranks together.\<close>

definition evaluated_items :: "int \<Rightarrow> system \<Rightarrow> int multiset" where
  "evaluated_items num_nodes S =
     (\<Sum>r\<leftarrow>[0..num_nodes - 1]. mset (map (\<lambda>(g, item, i). item) (evaluated (node_of S r))))"

text \<open>
  The entries other than sentinels that have been pushed into \<^verbatim>\<open>load_work\<close> of rank \<open>r\<close>,
  in order.
\<close>

definition work_pushed :: "system \<Rightarrow> int \<Rightarrow> int list" where
  "work_pushed S r =
     map LoadWorkEntry.work_item_index
       (filter (\<lambda>e. \<not> is_load_sentinel e) (load_work_pushed (node_of S r)))"

text \<open>
  What the proof maintains: what a node pushed is what the distribution code of its rank
  pushed; a rank whose \<^verbatim>\<open>main\<close> is past the distribution code has ended its loops; and
  the distribution code pushes only on ranks of the cluster.
\<close>

definition system_invariant :: "nat \<Rightarrow> int \<Rightarrow> system \<Rightarrow> bool" where
  "system_invariant n num_nodes S \<longleftrightarrow>
     (\<forall>r. work_pushed S r = map snd (filter (\<lambda>p. fst p = r) (pushed (dispatcher S)))) \<and>
     (\<forall>r. 0 \<le> r \<and> r < num_nodes \<and> Distribute_work \<notin> set (main_thread (node_of S r)) \<longrightarrow>
        loops_ended n num_nodes (dispatcher S) r) \<and>
     (\<forall>p \<in> set (pushed (dispatcher S)). 0 \<le> fst p \<and> fst p < num_nodes)"

text \<open>
  Two runs with \<^verbatim>\<open>work_items.size() = 1\<close> on a single node.  Without load workers the
  master pushes index 0, \<^verbatim>\<open>main\<close> pushes the sentinel of \<^verbatim>\<open>eval_work[0]\<close>, the evaluate
  worker returns and is joined.  Without buffers the high-water mark is 0.
\<close>

definition no_load_workers :: config where
  "no_load_workers = tiny_config\<lparr>LOAD_WORKERS_PER_NODE := 0\<rparr>"

definition no_load_workers_schedule :: "system_event list" where
  "no_load_workers_schedule =
     [Dispatch (Master_iterates 0 0), At_node 0 (Main_proceeds 0), At_node 0 (Main_proceeds 7),
      At_node 0 (Eval_pops 0), At_node 0 (Main_proceeds 0)]"

definition no_buffers :: config where
  "no_buffers = tiny_config\<lparr>TASKS_IN_QUEUE_PER_GPU := 0\<rparr>"

text \<open>
  Two nodes and two work items, one GPU, one buffer and one load worker each: the master
  takes item 0, rank 1 asks for work, receives item 1 and evaluates it, asks again and
  receives \<open>-1\<close>; then both nodes shut down.
\<close>

definition item_through_node :: "int \<Rightarrow> system_event list" where
  "item_through_node r =
     [At_node r (Load_pops_work 0), At_node r (Load_pops_buffer 0),
      At_node r (Load_pushes_eval 0), At_node r (Eval_pops 0), At_node r (Eval_releases 0)]"

definition node_shuts_down :: "int \<Rightarrow> system_event list" where
  "node_shuts_down r =
     [At_node r (Main_proceeds 0), At_node r (Main_proceeds 0), At_node r (Load_pops_work 0),
      At_node r (Main_proceeds 0), At_node r (Main_proceeds 7), At_node r (Eval_pops 0),
      At_node r (Main_proceeds 0)]"

definition two_node_run :: "system_event list" where
  "two_node_run =
     [Dispatch (Master_iterates 0 0), Dispatch (Node_polls 1 0),
      Dispatch (Master_iterates 1 1), Dispatch (Node_receives 1)] @
     item_through_node 1 @
     [Dispatch (Node_polls 1 0), Dispatch (Master_drains 1), Dispatch (Node_receives 1)] @
     node_shuts_down 1 @ item_through_node 0 @ node_shuts_down 0"

section \<open>The work planner partitions every video\<close>

lemma int32_id: "- 2147483648 \<le> x \<Longrightarrow> x < 2147483648 \<Longrightarrow> int32 x = x"
  by (simp add: int32_def)

lemma int32_range: "- 2147483648 \<le> int32 x \<and> int32 x < 2147483648"
  by (simp add: int32_def)

text \<open>
  The product of lines 91--93 wraps around: with a batch size of 65536 and 65536 batches
  per work item the work-item size is 0.
\<close>

lemma frames_per_work_item_wraps:
  "frames_per_work_item
     \<lparr>GPUS_PER_NODE = 1, GLOBAL_BATCH_SIZE = 65536, BATCHES_PER_WORK_ITEM = 65536,
      TASKS_IN_QUEUE_PER_GPU = 4, LOAD_WORKERS_PER_NODE = 2, NUM_CUDA_STREAMS = 32\<rparr> = 0"
  by (simp add: frames_per_work_item_def int32_def)

lemma ceil_div_less_iff:
  fixes W F k :: int
  assumes "0 < W"
  shows "(k < (F + W - 1) div W) = (k * W < F)"
proof
  assume "k < (F + W - 1) div W"
  then have "k + 1 \<le> (F + W - 1) div W" by simp
  then have "(k + 1) * W \<le> ((F + W - 1) div W) * W"
    using assms by (simp add: mult_right_mono)
  moreover have "((F + W - 1) div W) * W + (F + W - 1) mod W = F + W - 1"
    by simp
  moreover have "0 \<le> (F + W - 1) mod W"
    using assms by simp
  ultimately have "(k + 1) * W \<le> F + W - 1" by linarith
  then show "k * W < F" by (simp add: algebra_simps)
next
  assume "k * W < F"
  then have "(k + 1) * W \<le> F + W - 1" by (simp add: algebra_simps)
  then have "(k + 1) * W div W \<le> (F + W - 1) div W"
    using assms by (rule zdiv_mono1)
  then show "k < (F + W - 1) div W" using assms by simp
qed

lemma ceiling_as_div:
  fixes W F :: int
  assumes "0 < W"
  shows "\<lceil>real_of_int F / real_of_int W\<rceil> = (F + W - 1) div W"
proof (rule ceiling_unique)
  let ?c = "(F + W - 1) div W"
  have "(?c - 1) * W < F"
    using ceil_div_less_iff [OF assms, of "?c - 1" F] by simp
  then have "real_of_int ((?c - 1) * W) < real_of_int F" by linarith
  then have "(real_of_int ?c - 1) * real_of_int W < real_of_int F" by simp
  then show "real_of_int ?c - 1 < real_of_int F / real_of_int W"
    using assms by (simp add: pos_less_divide_eq)
  have "\<not> ?c * W < F"
    using ceil_div_less_iff [OF assms, of "?c" F] by simp
  then have "real_of_int F \<le> real_of_int (?c * W)" by linarith
  then have "real_of_int F \<le> real_of_int ?c * real_of_int W" by simp
  then show "real_of_int F / real_of_int W \<le> real_of_int ?c"
    using assms by (simp add: pos_divide_le_eq)
qed

lemma ceiling_less_iff_mult:
  fixes W F k :: int
  assumes "0 < W"
  shows "(k < ceil_div F W) = (k * W < F)"
  using assms by (simp add: ceil_div_def ceiling_as_div ceil_div_less_iff)

lemma allocate_frames_done:
  "meta_frames \<le> a \<Longrightarrow> allocate_frames W i meta_frames a ws = Some ws"
  by (subst allocate_frames.simps) simp

lemma allocate_frames_step:
  assumes "k * W < F" and "0 \<le> k" and "0 < W" and "F < 2147483648"
  shows "allocate_frames W i F (k * W) ws =
         allocate_frames W i F (min F ((k + 1) * W)) (ws @ [range_item W i F k])"
proof -
  have k: "0 \<le> k * W" using assms(2,3) by simp
  have d: "int32 (F - k * W) = F - k * W"
    using assms(1,4) k by (intro int32_id) linarith+
  have e: "k * W + min W (F - k * W) = min F ((k + 1) * W)"
    by (simp add: algebra_simps min_def)
  have F: "0 \<le> F" using assms(1) k by linarith
  have "0 \<le> (k + 1) * W" using assms(2,3) by simp
  with F have "0 \<le> min F ((k + 1) * W)" "min F ((k + 1) * W) \<le> F"
    by simp_all
  then have s: "int32 (min F ((k + 1) * W)) = min F ((k + 1) * W)"
    using assms(4) by (intro int32_id) linarith+
  show ?thesis
    using assms(1)
    by (subst allocate_frames.simps) (simp add: Let_def d e s range_item_def)
qed

lemma allocate_frames_from:
  fixes W :: int
  assumes W: "0 < W" and F: "F < 2147483648"
  shows "0 \<le> k \<Longrightarrow> k * W < F \<Longrightarrow>
     allocate_frames W i F (k * W) ws =
       Some (ws @ map (range_item W i F) [k..ceil_div F W - 1])"
proof (induction "nat (ceil_div F W - k)" arbitrary: k ws)
  case 0
  then have "\<not> k < ceil_div F W" by simp
  with 0 show ?case by (simp add: ceiling_less_iff_mult [OF W])
next
  case (Suc n)
  let ?c = "ceil_div F W"
  have kc: "k < ?c" using Suc.prems by (simp add: ceiling_less_iff_mult [OF W])
  have up: "[k..?c - 1] = k # [k + 1..?c - 1]"
    using kc by (simp add: upto_rec1)
  show ?case
  proof (cases "(k + 1) * W < F")
    case True
    then have m: "min F ((k + 1) * W) = (k + 1) * W" by simp
    have n: "n = nat (?c - (k + 1))" using Suc.hyps(2) by simp
    have "allocate_frames W i F ((k + 1) * W) (ws @ [range_item W i F k]) =
          Some ((ws @ [range_item W i F k]) @ map (range_item W i F) [k + 1..?c - 1])"
      using Suc.hyps(1) [OF n _ True] Suc.prems(1) by simp
    then show ?thesis
      using allocate_frames_step [OF Suc.prems(2) Suc.prems(1) W F, of i ws] by (simp add: m up)
  next
    case False
    then have m: "min F ((k + 1) * W) = F" by simp
    have "\<not> k + 1 < ?c" using False by (simp add: ceiling_less_iff_mult [OF W])
    then have e: "[k + 1..?c - 1] = []" by simp
    show ?thesis
      using allocate_frames_step [OF Suc.prems(2) Suc.prems(1) W F, of i ws]
      by (simp add: m up e allocate_frames_done)
  qed
qed

lemma allocate_frames_video:
  fixes W :: int
  assumes "0 < W" and "F < 2147483648"
  shows "allocate_frames W i F 0 ws = Some (ws @ video_ranges W i F)"
proof (cases "0 < F")
  case True
  then show ?thesis
    using allocate_frames_from [OF assms, of 0 i ws]
    by (simp add: video_ranges_def)
next
  case False
  have "(0 < ceil_div F W) = (0 * W < F)"
    by (rule ceiling_less_iff_mult [OF assms(1)])
  with False have "\<not> 0 < ceil_div F W" by simp
  then have "video_ranges W i F = []" by (simp add: video_ranges_def)
  with False show ?thesis by (simp add: allocate_frames_done)
qed

lemma plan_videos_planned:
  fixes W :: int
  assumes "0 < W"
  shows "\<forall>m \<in> set metas. frames m < 2147483648 \<Longrightarrow>
         plan_videos W i metas ws = Some (ws @ planned_from W i metas)"
  by (induction metas arbitrary: i ws) (simp_all add: allocate_frames_video [OF assms])


lemma length_video_ranges:
  "length (video_ranges W i F) = nat (ceil_div F W)"
  by (simp add: video_ranges_def)

lemma nth_video_ranges:
  assumes "k < length (video_ranges W i F)"
  shows "video_ranges W i F ! k = range_item W i F (int k)"
proof -
  have "int k \<le> ceil_div F W - 1"
    using assms by (simp add: length_video_ranges)
  then have "[0..ceil_div F W - 1] ! k = int k"
    by (simp add: nth_upto)
  then show ?thesis
    using assms by (simp add: video_ranges_def)
qed

lemma video_ranges_index_bound:
  fixes W :: int
  assumes W: "0 < W" and k: "k < length (video_ranges W i F)"
  shows "int k * W < F"
proof -
  have "int k < ceil_div F W"
    using k by (simp add: length_video_ranges)
  then show ?thesis by (simp add: ceiling_less_iff_mult [OF W])
qed

lemma video_ranges_item:
  fixes W :: int
  assumes W: "0 < W" and k: "k < length (video_ranges W i F)"
  shows "video_index (video_ranges W i F ! k) = i"
    and "0 \<le> start_frame (video_ranges W i F ! k)"
    and "start_frame (video_ranges W i F ! k) < end_frame (video_ranges W i F ! k)"
    and "end_frame (video_ranges W i F ! k) \<le> F"
proof -
  note b = video_ranges_index_bound [OF W k]
  show "video_index (video_ranges W i F ! k) = i"
    by (simp add: nth_video_ranges [OF k] range_item_def)
  show "0 \<le> start_frame (video_ranges W i F ! k)"
    using W by (simp add: nth_video_ranges [OF k] range_item_def)
  show "start_frame (video_ranges W i F ! k) < end_frame (video_ranges W i F ! k)"
    using W b by (simp add: nth_video_ranges [OF k] range_item_def algebra_simps)
  show "end_frame (video_ranges W i F ! k) \<le> F"
    by (simp add: nth_video_ranges [OF k] range_item_def)
qed

lemma video_ranges_last:
  fixes W :: int
  assumes W: "0 < W" and k: "Suc k = length (video_ranges W i F)"
  shows "end_frame (video_ranges W i F ! k) - start_frame (video_ranges W i F ! k) \<le> W"
    and "end_frame (video_ranges W i F ! k) = F"
proof -
  have kl: "k < length (video_ranges W i F)" using k by simp
  have "\<not> int k + 1 < ceil_div F W"
    using k by (simp add: length_video_ranges)
  then have nb: "\<not> (int k + 1) * W < F"
    by (simp add: ceiling_less_iff_mult [OF W])
  show "end_frame (video_ranges W i F ! k) - start_frame (video_ranges W i F ! k) \<le> W"
    by (simp add: nth_video_ranges [OF kl] range_item_def algebra_simps)
  show "end_frame (video_ranges W i F ! k) = F"
    using nb by (simp add: nth_video_ranges [OF kl] range_item_def)
qed

lemma video_ranges_inner:
  fixes W :: int
  assumes W: "0 < W" and k: "Suc k < length (video_ranges W i F)"
  shows "end_frame (video_ranges W i F ! k) - start_frame (video_ranges W i F ! k) = W"
    and "start_frame (video_ranges W i F ! Suc k) = end_frame (video_ranges W i F ! k)"
proof -
  have kl: "k < length (video_ranges W i F)" using k by simp
  have "(int k + 1) * W < F"
    using video_ranges_index_bound [OF W k] by (simp add: algebra_simps)
  then have m: "min F ((int k + 1) * W) = (int k + 1) * W" by simp
  have e: "end_frame (video_ranges W i F ! k) = (int k + 1) * W"
    by (simp add: nth_video_ranges [OF kl] range_item_def m)
  have st: "start_frame (video_ranges W i F ! k) = int k * W"
    by (simp add: nth_video_ranges [OF kl] range_item_def)
  show "end_frame (video_ranges W i F ! k) - start_frame (video_ranges W i F ! k) = W"
    by (simp add: e st algebra_simps)
  have s: "start_frame (video_ranges W i F ! Suc k) = (int k + 1) * W"
    by (simp add: nth_video_ranges [OF k] range_item_def algebra_simps)
  show "start_frame (video_ranges W i F ! Suc k) = end_frame (video_ranges W i F ! k)"
    by (simp only: e s)
qed

lemma video_ranges_cover:
  fixes W :: int
  assumes W: "0 < W" and f: "0 \<le> f" "f < F"
  shows "\<exists>k < length (video_ranges W i F).
           start_frame (video_ranges W i F ! k) \<le> f \<and> f < end_frame (video_ranges W i F ! k) \<and>
           (\<forall>j < length (video_ranges W i F).
              start_frame (video_ranges W i F ! j) \<le> f \<and> f < end_frame (video_ranges W i F ! j)
                \<longrightarrow> j = k)"
proof -
  let ?q = "f div W"
  have q0: "0 \<le> ?q" using W f by (simp add: pos_imp_zdiv_nonneg_iff)
  have eq: "f = ?q * W + f mod W" by simp
  have r: "0 \<le> f mod W" "f mod W < W" using W by simp_all
  have lo: "?q * W \<le> f" using eq r by linarith
  have "f < ?q * W + W" using eq r by linarith
  then have hi: "f < (?q + 1) * W" by (simp add: algebra_simps)
  have "?q * W < F" using lo f by linarith
  then have "?q < ceil_div F W"
    by (simp add: ceiling_less_iff_mult [OF W])
  then have kl: "nat ?q < length (video_ranges W i F)"
    using q0 by (simp add: length_video_ranges)
  have here: "start_frame (video_ranges W i F ! nat ?q) \<le> f \<and>
              f < end_frame (video_ranges W i F ! nat ?q)"
    using lo hi f q0 by (simp add: nth_video_ranges [OF kl] range_item_def)
  have uniq: "j = nat ?q"
    if j: "j < length (video_ranges W i F)"
      and c: "start_frame (video_ranges W i F ! j) \<le> f \<and> f < end_frame (video_ranges W i F ! j)"
    for j
  proof -
    have "int j * W \<le> f" and "f < (int j + 1) * W"
      using c by (simp_all add: nth_video_ranges [OF j] range_item_def)
    then have "f div W = int j"
      using W by (intro int_div_pos_eq [where r = "f - int j * W"]) (simp_all add: algebra_simps)
    then show ?thesis by simp
  qed
  show ?thesis using kl here uniq by blast
qed

lemma video_ranges_partitions:
  fixes W :: int
  assumes W: "0 < W" and F: "0 \<le> F"
  shows "partitions_frames W i F (video_ranges W i F)"
proof -
  have len: "int (length (video_ranges W i F)) = ceil_div F W"
  proof -
    have "- 1 < ceil_div F W"
      using F W by (simp add: ceiling_less_iff_mult [OF W])
    then show ?thesis by (simp add: length_video_ranges)
  qed
  have first: "video_ranges W i F \<noteq> [] \<longrightarrow> start_frame (video_ranges W i F ! 0) = 0"
  proof
    assume "video_ranges W i F \<noteq> []"
    then have "0 < length (video_ranges W i F)" by simp
    then show "start_frame (video_ranges W i F ! 0) = 0"
      by (simp add: nth_video_ranges range_item_def)
  qed
  have items: "\<forall>k < length (video_ranges W i F).
        video_index (video_ranges W i F ! k) = i \<and>
        0 \<le> start_frame (video_ranges W i F ! k) \<and>
        start_frame (video_ranges W i F ! k) < end_frame (video_ranges W i F ! k) \<and>
        end_frame (video_ranges W i F ! k) \<le> F \<and>
        (if Suc k = length (video_ranges W i F)
         then end_frame (video_ranges W i F ! k) - start_frame (video_ranges W i F ! k) \<le> W \<and>
              end_frame (video_ranges W i F ! k) = F
         else end_frame (video_ranges W i F ! k) - start_frame (video_ranges W i F ! k) = W \<and>
              start_frame (video_ranges W i F ! Suc k) = end_frame (video_ranges W i F ! k))"
  proof (intro allI impI)
    fix k assume k: "k < length (video_ranges W i F)"
    show "video_index (video_ranges W i F ! k) = i \<and>
        0 \<le> start_frame (video_ranges W i F ! k) \<and>
        start_frame (video_ranges W i F ! k) < end_frame (video_ranges W i F ! k) \<and>
        end_frame (video_ranges W i F ! k) \<le> F \<and>
        (if Suc k = length (video_ranges W i F)
         then end_frame (video_ranges W i F ! k) - start_frame (video_ranges W i F ! k) \<le> W \<and>
              end_frame (video_ranges W i F ! k) = F
         else end_frame (video_ranges W i F ! k) - start_frame (video_ranges W i F ! k) = W \<and>
              start_frame (video_ranges W i F ! Suc k) = end_frame (video_ranges W i F ! k))"
    proof (cases "Suc k = length (video_ranges W i F)")
      case True
      then show ?thesis
        using video_ranges_item [OF W k] video_ranges_last [OF W True] by simp
    next
      case False
      then have "Suc k < length (video_ranges W i F)" using k by simp
      then show ?thesis
        using video_ranges_item [OF W k] video_ranges_inner [OF W] False by simp
    qed
  qed
  have cover: "\<forall>f \<in> set [0..F - 1].
        \<exists>k < length (video_ranges W i F).
          start_frame (video_ranges W i F ! k) \<le> f \<and> f < end_frame (video_ranges W i F ! k) \<and>
          (\<forall>j < length (video_ranges W i F).
             start_frame (video_ranges W i F ! j) \<le> f \<and> f < end_frame (video_ranges W i F ! j)
               \<longrightarrow> j = k)"
  proof
    fix f assume "f \<in> set [0..F - 1]"
    then have "0 \<le> f" "f < F" by simp_all
    then show "\<exists>k < length (video_ranges W i F).
          start_frame (video_ranges W i F ! k) \<le> f \<and> f < end_frame (video_ranges W i F ! k) \<and>
          (\<forall>j < length (video_ranges W i F).
             start_frame (video_ranges W i F ! j) \<le> f \<and> f < end_frame (video_ranges W i F ! j)
               \<longrightarrow> j = k)"
      by (rule video_ranges_cover [OF W])
  qed
  show ?thesis
    unfolding partitions_frames_def using len items first cover by blast
qed


lemma planned_from_concat:
  "planned_from W i metas =
     concat (map (\<lambda>j. video_ranges W (i + int j) (frames (metas ! j))) [0..<length metas])"
proof (induction metas arbitrary: i)
  case Nil
  show ?case by simp
next
  case (Cons m ms)
  have "[0..<length (m # ms)] = 0 # map Suc [0..<length ms]"
    by (simp add: upt_conv_Cons map_Suc_upt del: upt_Suc)
  then show ?case
    by (simp add: Cons.IH [of "i + 1"] o_def add.assoc del: upt_Suc)
qed

text \<open>
  Claim C6.  The work-item size \<open>W\<close> is the value of \<^verbatim>\<open>frames_per_work_item()\<close>, the 32-bit
  product of lines 91--93.  When it is positive and every frame count is a non-negative
  \<^verbatim>\<open>int\<close>, the planner returns, and its list is the concatenation, in video index order,
  of one block per video; the block of video \<open>j\<close> with \<open>F\<close> frames has \<open>ceil (F / W)\<close>
  items whose frame ranges are consecutive, pairwise disjoint and cover exactly \<open>[0, F)\<close>,
  each of \<open>W\<close> frames except a possibly shorter last one.
\<close>

theorem work_planner_partitions_each_video:
  assumes "0 < frames_per_work_item c"
    and "\<forall>m \<in> set video_metadata. 0 \<le> frames m \<and> frames m < 2147483648"
  shows "plan_work_items c video_metadata =
           Some (concat (map (\<lambda>j. video_ranges (frames_per_work_item c) (int j)
                                      (frames (video_metadata ! j)))
                          [0..<length video_metadata])) \<and>
         (\<forall>j < length video_metadata.
            partitions_frames (frames_per_work_item c) (int j) (frames (video_metadata ! j))
              (video_ranges (frames_per_work_item c) (int j) (frames (video_metadata ! j))))"
proof
  from assms(2) have r: "\<forall>m \<in> set video_metadata. frames m < 2147483648" by simp
  show "plan_work_items c video_metadata =
           Some (concat (map (\<lambda>j. video_ranges (frames_per_work_item c) (int j)
                                      (frames (video_metadata ! j)))
                          [0..<length video_metadata]))"
    using plan_videos_planned [OF assms(1) r, of 0 "[]"]
      planned_from_concat [of "frames_per_work_item c" 0 video_metadata]
    by (simp add: plan_work_items_def)
  show "\<forall>j < length video_metadata.
            partitions_frames (frames_per_work_item c) (int j) (frames (video_metadata ! j))
              (video_ranges (frames_per_work_item c) (int j) (frames (video_metadata ! j)))"
    using assms by (simp add: video_ranges_partitions)
qed

lemma ceil_div_10_4: "ceil_div 10 4 = 3"
  by (simp add: ceil_div_def ceiling_as_div)

theorem work_planner_partitions_each_video_witness:
  "0 < frames_per_work_item scenario_config \<and>
   0 \<le> frames ten_frame_video \<and> frames ten_frame_video < 2147483648 \<and>
   plan_work_items scenario_config [ten_frame_video] =
     Some [\<lparr>video_index = 0, start_frame = 0, end_frame = 4\<rparr>,
           \<lparr>video_index = 0, start_frame = 4, end_frame = 8\<rparr>,
           \<lparr>video_index = 0, start_frame = 8, end_frame = 10\<rparr>] \<and>
   partitions_frames 4 0 10
     [\<lparr>video_index = 0, start_frame = 0, end_frame = 4\<rparr>,
      \<lparr>video_index = 0, start_frame = 4, end_frame = 8\<rparr>,
      \<lparr>video_index = 0, start_frame = 8, end_frame = 10\<rparr>]"
proof -
  have w: "frames_per_work_item scenario_config = 4"
    by (simp add: frames_per_work_item_def scenario_config_def int32_def)
  have h1: "0 < frames_per_work_item scenario_config" by (simp add: w)
  have h2: "\<forall>m \<in> set [ten_frame_video]. 0 \<le> frames m \<and> frames m < 2147483648"
    by (simp add: ten_frame_video_def)
  have r: "video_ranges 4 0 10 =
     [\<lparr>video_index = 0, start_frame = 0, end_frame = 4\<rparr>,
      \<lparr>video_index = 0, start_frame = 4, end_frame = 8\<rparr>,
      \<lparr>video_index = 0, start_frame = 8, end_frame = 10\<rparr>]"
    by (simp add: video_ranges_def range_item_def ceil_div_10_4 upto_rec1)
  show ?thesis
    using work_planner_partitions_each_video [OF h1 h2] h1 h2
    by (simp add: w r ten_frame_video_def)
qed

section \<open>The evaluate worker batches every frame of a work item\<close>

lemma batch_sizes_step:
  assumes "0 < B" "B < N"
  shows "batch_sizes B N = B # batch_sizes B (N - B)"
proof -
  have d: "N div B = (N - B) div B + 1" using assms by (simp add: div_pos_geq)
  have "0 \<le> (N - B) div B" using assms by (simp add: pos_imp_zdiv_nonneg_iff)
  then have "nat (N div B) = Suc (nat ((N - B) div B))" using d by simp
  moreover have "N mod B = (N - B) mod B" by simp
  ultimately show ?thesis by (simp add: batch_sizes_def)
qed

lemma batch_sizes_last:
  assumes "0 < N" "N \<le> B"
  shows "batch_sizes B N = [N]"
proof (cases "N = B")
  case True
  with assms show ?thesis by (simp add: batch_sizes_def)
next
  case False
  with assms have "N < B" by simp
  with assms show ?thesis by (simp add: batch_sizes_def)
qed

lemma batch_sizes_none:
  assumes "0 < B"
  shows "batch_sizes B 0 = []"
  by (simp add: batch_sizes_def)

lemma preprocess_batch_upto:
  assumes "- 2147483648 \<le> off" and "off + n \<le> 2147483648"
  shows "preprocess_batch n off = [off..off + n - 1]"
  unfolding preprocess_batch_def
proof (rule nth_equalityI)
  show "length (map (\<lambda>i. int32 (i + off)) [0..n - 1]) = length [off..off + n - 1]" by simp
  fix k assume "k < length (map (\<lambda>i. int32 (i + off)) [0..n - 1])"
  then have k: "int k \<le> n - 1" and len: "k < length [0..n - 1]" by simp_all
  have i: "[0..n - 1] ! k = int k" using k by (simp add: nth_upto)
  have w: "int32 (int k + off) = int k + off"
    using assms k by (intro int32_id) linarith+
  have "map (\<lambda>i. int32 (i + off)) [0..n - 1] ! k = int32 ([0..n - 1] ! k + off)"
    using len by (rule nth_map)
  also have "\<dots> = int k + off" by (simp only: i w)
  also have "\<dots> = [off..off + n - 1] ! k" using k by (simp add: nth_upto)
  finally show "map (\<lambda>i. int32 (i + off)) [0..n - 1] ! k = [off..off + n - 1] ! k" .
qed

lemma length_preprocess_batch: "0 \<le> n \<Longrightarrow> int (length (preprocess_batch n off)) = n"
  by (simp add: preprocess_batch_def)

lemma full_batches_exit:
  "\<not> int32 (current_frame + B) < end_frame wi \<Longrightarrow>
   full_batches B wi current_frame passes = Some (current_frame, passes)"
  by (subst full_batches.simps) simp

lemma full_batches_iter:
  "int32 (current_frame + B) < end_frame wi \<Longrightarrow>
   full_batches B wi current_frame passes =
     full_batches B wi (int32 (current_frame + B))
       (passes @ [\<lparr>net_input_batch = B, data_blob_batch = B,
                    input_slots = preprocess_batch B (int32 (current_frame - start_frame wi))\<rparr>])"
  by (subst full_batches.simps) (simp add: Let_def)

text \<open>
  The passes that the worker appends from frame \<open>cur\<close> on, when no \<^verbatim>\<open>int\<close> operation
  leaves the 32-bit range: their batch sizes, the slots they read, their shapes, and the
  slots of the pass for the tail.
\<close>

lemma process_from_characterised:
  assumes B: "0 < B" and s0: "0 \<le> start_frame wi"
    and r: "end_frame wi + B < 2147483648"
  shows "start_frame wi \<le> cur \<Longrightarrow> cur \<le> end_frame wi \<Longrightarrow>
    \<exists>new. process_from B wi cur passes = Some (passes @ new) \<and>
      map net_input_batch new = batch_sizes B (end_frame wi - cur) \<and>
      concat (map input_slots new) = [cur - start_frame wi..end_frame wi - start_frame wi - 1] \<and>
      (\<forall>p \<in> set new. well_shaped p) \<and>
      ((end_frame wi - cur) mod B \<noteq> 0 \<longrightarrow>
         input_slots (last new) =
           [end_frame wi - start_frame wi - (end_frame wi - cur) mod B..
            end_frame wi - start_frame wi - 1])"
proof (induction "nat (end_frame wi - cur)" arbitrary: cur passes rule: less_induct)
  case less
  have sum: "int32 (cur + B) = cur + B"
    using less.prems s0 B r by (intro int32_id) linarith+
  have off: "int32 (cur - start_frame wi) = cur - start_frame wi"
    using less.prems s0 B r by (intro int32_id) linarith+
  show ?case
  proof (cases "cur + B < end_frame wi")
    case True
    let ?p = "\<lparr>net_input_batch = B, data_blob_batch = B,
                input_slots = preprocess_batch B (cur - start_frame wi)\<rparr>"
    have smaller: "nat (end_frame wi - (cur + B)) < nat (end_frame wi - cur)"
      using True B by simp
    have le: "cur + B \<le> end_frame wi" using True by simp
    have ge: "start_frame wi \<le> cur + B" using less.prems(1) B by simp
    obtain new where new:
      "process_from B wi (cur + B) (passes @ [?p]) = Some ((passes @ [?p]) @ new)"
      "map net_input_batch new = batch_sizes B (end_frame wi - (cur + B))"
      "concat (map input_slots new) =
         [cur + B - start_frame wi..end_frame wi - start_frame wi - 1]"
      "\<forall>p \<in> set new. well_shaped p"
      "(end_frame wi - (cur + B)) mod B \<noteq> 0 \<longrightarrow>
         input_slots (last new) =
           [end_frame wi - start_frame wi - (end_frame wi - (cur + B)) mod B..
            end_frame wi - start_frame wi - 1]"
      using less.hyps [OF smaller ge le, of "passes @ [?p]"] by (elim exE conjE) (rule that)
    have pu: "preprocess_batch B (cur - start_frame wi) =
              [cur - start_frame wi..cur - start_frame wi + B - 1]"
      using less.prems s0 r True by (intro preprocess_batch_upto) linarith+
    have run: "process_from B wi cur passes = Some (passes @ (?p # new))"
      using new(1) True
      by (simp add: process_from_def full_batches_iter [of cur B wi] sum off)
    have sizes: "map net_input_batch (?p # new) = batch_sizes B (end_frame wi - cur)"
      using new(2) batch_sizes_step [of B "end_frame wi - cur"] B True
      by (simp add: algebra_simps)
    have "[cur - start_frame wi..end_frame wi - start_frame wi - 1] =
          [cur - start_frame wi..cur - start_frame wi + B - 1] @
          [cur - start_frame wi + B - 1 + 1..end_frame wi - start_frame wi - 1]"
      using True B by (intro upto_split2) simp_all
    then have slots: "concat (map input_slots (?p # new)) =
          [cur - start_frame wi..end_frame wi - start_frame wi - 1]"
      using new(3) by (simp add: pu algebra_simps)
    have shaped: "\<forall>p \<in> set (?p # new). well_shaped p"
      using new(4) B by (simp add: well_shaped_def length_preprocess_batch)
    have m: "(end_frame wi - cur) mod B = (end_frame wi - (cur + B)) mod B"
    proof -
      have "end_frame wi - cur = end_frame wi - (cur + B) + B" by simp
      then show ?thesis by (simp only: mod_add_self2)
    qed
    have tail: "(end_frame wi - cur) mod B \<noteq> 0 \<longrightarrow>
         input_slots (last (?p # new)) =
           [end_frame wi - start_frame wi - (end_frame wi - cur) mod B..
            end_frame wi - start_frame wi - 1]"
    proof
      assume nz: "(end_frame wi - cur) mod B \<noteq> 0"
      with m have nz': "(end_frame wi - (cur + B)) mod B \<noteq> 0" by simp
      then have "batch_sizes B (end_frame wi - (cur + B)) \<noteq> []"
        by (simp add: batch_sizes_def)
      with new(2) have "new \<noteq> []" by auto
      then have l: "last (?p # new) = last new" by simp
      from new(5) nz' have "input_slots (last new) =
           [end_frame wi - start_frame wi - (end_frame wi - (cur + B)) mod B..
            end_frame wi - start_frame wi - 1]"
        by blast
      then show "input_slots (last (?p # new)) =
           [end_frame wi - start_frame wi - (end_frame wi - cur) mod B..
            end_frame wi - start_frame wi - 1]"
        by (simp only: l m)
    qed
    show ?thesis
      by (rule exI [of _ "?p # new"]) (intro conjI run sizes slots shaped tail)
  next
    case False
    then have "\<not> int32 (cur + B) < end_frame wi" by (simp add: sum)
    note exit = full_batches_exit [OF this]
    show ?thesis
    proof (cases "cur < end_frame wi")
      case True
      let ?n = "end_frame wi - cur"
      let ?p = "\<lparr>net_input_batch = ?n, data_blob_batch = ?n,
                  input_slots = preprocess_batch ?n (cur - start_frame wi)\<rparr>"
      have n: "int32 ?n = ?n"
        using less.prems s0 B r by (intro int32_id) linarith+
      have pu: "preprocess_batch ?n (cur - start_frame wi) =
              [cur - start_frame wi..end_frame wi - start_frame wi - 1]"
      proof -
        have "preprocess_batch ?n (cur - start_frame wi) =
              [cur - start_frame wi..cur - start_frame wi + ?n - 1]"
          using less.prems s0 r B by (intro preprocess_batch_upto) linarith+
        then show ?thesis by (simp add: algebra_simps)
      qed
      have run: "process_from B wi cur passes = Some (passes @ [?p])"
        using True by (simp add: process_from_def exit epilogue_def Let_def n off)
      have sizes: "map net_input_batch [?p] = batch_sizes B ?n"
        using batch_sizes_last [of ?n B] True False by simp
      have slots: "concat (map input_slots [?p]) =
          [cur - start_frame wi..end_frame wi - start_frame wi - 1]"
        by (simp add: pu)
      have shaped: "\<forall>p \<in> set [?p]. well_shaped p"
        using True by (simp add: well_shaped_def length_preprocess_batch)
      have tail: "?n mod B \<noteq> 0 \<longrightarrow>
         input_slots (last [?p]) =
           [end_frame wi - start_frame wi - ?n mod B..end_frame wi - start_frame wi - 1]"
      proof
        assume nz: "?n mod B \<noteq> 0"
        have "?n \<noteq> B" using nz by auto
        with True False have "?n < B" "0 \<le> ?n" by simp_all
        then have "?n mod B = ?n" by simp
        then show "input_slots (last [?p]) =
           [end_frame wi - start_frame wi - ?n mod B..end_frame wi - start_frame wi - 1]"
          by (simp add: pu)
      qed
      show ?thesis
      by (rule exI [of _ "[?p]"]) (intro conjI run sizes slots shaped tail)
    next
      case False
      with less.prems have e: "end_frame wi = cur" by simp
      have run: "process_from B wi cur passes = Some (passes @ [])"
        using False by (simp add: process_from_def exit epilogue_def)
      have sizes: "map net_input_batch [] = batch_sizes B (end_frame wi - cur)"
        using B by (simp add: e batch_sizes_none)
      have slots: "concat (map input_slots []) =
          [cur - start_frame wi..end_frame wi - start_frame wi - 1]"
        by (simp add: e)
      have shaped: "\<forall>p \<in> set ([] :: forward_pass list). well_shaped p" by simp
      have tail: "(end_frame wi - cur) mod B \<noteq> 0 \<longrightarrow>
         input_slots (last []) =
           [end_frame wi - start_frame wi - (end_frame wi - cur) mod B..
            end_frame wi - start_frame wi - 1]"
        by (simp add: e)
      show ?thesis
      by (rule exI [of _ "[]"]) (intro conjI run sizes slots shaped tail)
    qed
  qed
qed

lemma shaped_sizes:
  assumes "\<forall>p \<in> set ps. well_shaped p"
  shows "map data_blob_batch ps = map net_input_batch ps"
    and "map (\<lambda>p. int (length (input_slots p))) ps = map net_input_batch ps"
  using assms by (induction ps) (simp_all add: well_shaped_def)

text \<open>
  Claim C3.  Let the batch size \<open>B\<close> be positive and the work item have
  \<open>N = end_frame - start_frame \<ge> 0\<close> frames, with \<open>0 \<le> start_frame\<close> and
  \<open>end_frame + B\<close> an \<^verbatim>\<open>int\<close> (so that the sum of line 514 does not overflow).  Then the
  evaluate worker returns from the item, and the forward passes it ran are: \<open>N div B\<close>
  passes of \<open>B\<close> frames, followed by one pass of \<open>N mod B\<close> frames when that is not zero.
  These are the batch dimensions of \<^verbatim>\<open>net_input\<close> and of the \<^verbatim>\<open>data\<close> blob and the numbers
  of frames preprocessed for each pass, and the slots of the buffer that the passes read
  are \<open>0, \<dots>, N - 1\<close> in order.  (When \<open>B\<close> divides \<open>N\<close>, the last batch of \<open>B\<close> frames is run
  by the block of lines 583--644.)
\<close>

theorem evaluate_full_batches_then_short_batch:
  assumes "0 < GLOBAL_BATCH_SIZE c"
    and "0 \<le> start_frame work_item"
    and "start_frame work_item \<le> end_frame work_item"
    and "end_frame work_item + GLOBAL_BATCH_SIZE c < 2147483648"
  shows "\<exists>passes.
           evaluate_work_item c work_item = Some passes \<and>
           map net_input_batch passes =
             batch_sizes (GLOBAL_BATCH_SIZE c) (end_frame work_item - start_frame work_item) \<and>
           map data_blob_batch passes =
             batch_sizes (GLOBAL_BATCH_SIZE c) (end_frame work_item - start_frame work_item) \<and>
           map (\<lambda>p. int (length (input_slots p))) passes =
             batch_sizes (GLOBAL_BATCH_SIZE c) (end_frame work_item - start_frame work_item) \<and>
           concat (map input_slots passes) =
             [0..end_frame work_item - start_frame work_item - 1]"
proof -
  from process_from_characterised [OF assms(1,2,4) order_refl assms(3), of "[]"]
  obtain passes where p:
    "evaluate_work_item c work_item = Some passes"
    "map net_input_batch passes =
       batch_sizes (GLOBAL_BATCH_SIZE c) (end_frame work_item - start_frame work_item)"
    "concat (map input_slots passes) = [0..end_frame work_item - start_frame work_item - 1]"
    "\<forall>p \<in> set passes. well_shaped p"
    by (auto simp: evaluate_work_item_def)
  from shaped_sizes [OF p(4)] p(1,2,3) show ?thesis by simp
qed

theorem evaluate_full_batches_then_short_batch_witness:
  "0 < GLOBAL_BATCH_SIZE (scenario_config\<lparr>GLOBAL_BATCH_SIZE := 4\<rparr>) \<and>
   (0 :: int) \<le> 0 \<and> (0 :: int) \<le> 10 \<and>
   10 + GLOBAL_BATCH_SIZE (scenario_config\<lparr>GLOBAL_BATCH_SIZE := 4\<rparr>) < 2147483648 \<and>
   (\<exists>passes.
      evaluate_work_item (scenario_config\<lparr>GLOBAL_BATCH_SIZE := 4\<rparr>)
        \<lparr>video_index = 0, start_frame = 0, end_frame = 10\<rparr> = Some passes \<and>
      map net_input_batch passes = [4, 4, 2] \<and>
      map data_blob_batch passes = [4, 4, 2] \<and>
      map (\<lambda>p. int (length (input_slots p))) passes = [4, 4, 2] \<and>
      concat (map input_slots passes) = [0, 1, 2, 3, 4, 5, 6, 7, 8, 9])"
  using evaluate_full_batches_then_short_batch
      [of "scenario_config\<lparr>GLOBAL_BATCH_SIZE := 4\<rparr>"
          "\<lparr>video_index = 0, start_frame = 0, end_frame = 10\<rparr>"]
  by (simp add: scenario_config_def batch_sizes_def eval_nat_numeral upto_rec1)

text \<open>
  Claim C7.  Under the same conditions, the frames that the forward passes of a work item
  include, in order, are exactly \<open>start_frame, \<dots>, end_frame - 1\<close>, each once; every pass
  has blobs of exactly as many entries as frames were preprocessed for it; every pass but
  the one for the tail has \<open>B\<close> frames; and when \<open>B\<close> does not divide \<open>N\<close>, the last
  pass is the tail's own: it holds the last \<open>N mod B\<close> frames and both blobs have the batch
  dimension \<open>N mod B\<close>.
\<close>

theorem evaluate_includes_every_frame_once:
  assumes "0 < GLOBAL_BATCH_SIZE c"
    and "0 \<le> start_frame work_item"
    and "start_frame work_item \<le> end_frame work_item"
    and "end_frame work_item + GLOBAL_BATCH_SIZE c < 2147483648"
  shows "\<exists>passes.
           evaluate_work_item c work_item = Some passes \<and>
           concat (map (frames_of_pass work_item) passes) =
             [start_frame work_item..end_frame work_item - 1] \<and>
           list_all well_shaped passes \<and>
           list_all (\<lambda>p. net_input_batch p = GLOBAL_BATCH_SIZE c)
             (if (end_frame work_item - start_frame work_item) mod GLOBAL_BATCH_SIZE c = 0
              then passes else butlast passes) \<and>
           ((end_frame work_item - start_frame work_item) mod GLOBAL_BATCH_SIZE c \<noteq> 0 \<longrightarrow>
              passes \<noteq> [] \<and>
              frames_of_pass work_item (last passes) =
                [end_frame work_item -
                   (end_frame work_item - start_frame work_item) mod GLOBAL_BATCH_SIZE c..
                 end_frame work_item - 1] \<and>
              net_input_batch (last passes) =
                (end_frame work_item - start_frame work_item) mod GLOBAL_BATCH_SIZE c \<and>
              data_blob_batch (last passes) =
                (end_frame work_item - start_frame work_item) mod GLOBAL_BATCH_SIZE c)"
proof -
  let ?B = "GLOBAL_BATCH_SIZE c"
  let ?N = "end_frame work_item - start_frame work_item"
  from process_from_characterised [OF assms(1,2,4) order_refl assms(3), of "[]"]
  obtain passes where p:
    "evaluate_work_item c work_item = Some passes"
    "map net_input_batch passes = batch_sizes ?B ?N"
    "concat (map input_slots passes) = [0..?N - 1]"
    "\<forall>p \<in> set passes. well_shaped p"
    "?N mod ?B \<noteq> 0 \<longrightarrow> input_slots (last passes) = [?N - ?N mod ?B..?N - 1]"
    by (auto simp: evaluate_work_item_def)
  have shift: "map (\<lambda>slot. start_frame work_item + slot) [a..b] =
               [start_frame work_item + a..start_frame work_item + b]" for a b
  proof (rule nth_equalityI)
    show "length (map (\<lambda>slot. start_frame work_item + slot) [a..b]) =
          length [start_frame work_item + a..start_frame work_item + b]" by simp
    fix k assume "k < length (map (\<lambda>slot. start_frame work_item + slot) [a..b])"
    then have "a + int k \<le> b" by simp
    then show "map (\<lambda>slot. start_frame work_item + slot) [a..b] ! k =
               [start_frame work_item + a..start_frame work_item + b] ! k"
      by (simp add: nth_upto)
  qed
  have "concat (map (frames_of_pass work_item) passes) =
          map (\<lambda>slot. start_frame work_item + slot) (concat (map input_slots passes))"
    by (simp add: frames_of_pass_def [abs_def] map_concat o_def)
  also have "\<dots> = [start_frame work_item + 0..start_frame work_item + (?N - 1)]"
    by (simp only: p(3) shift)
  also have "\<dots> = [start_frame work_item..end_frame work_item - 1]" by simp
  finally have every: "concat (map (frames_of_pass work_item) passes) =
             [start_frame work_item..end_frame work_item - 1]" .
  have shaped: "list_all well_shaped passes" using p(4) by (simp add: list_all_iff)
  have full: "list_all (\<lambda>p. net_input_batch p = ?B)
             (if ?N mod ?B = 0 then passes else butlast passes)"
  proof (cases "?N mod ?B = 0")
    case True
    with p(2) have "map net_input_batch passes = replicate (nat (?N div ?B)) ?B"
      by (simp add: batch_sizes_def)
    then have "set (map net_input_batch passes) \<subseteq> {?B}" by auto
    then have "list_all (\<lambda>p. net_input_batch p = ?B) passes"
      by (auto simp: list_all_iff)
    with True show ?thesis by simp
  next
    case False
    with p(2) have "map net_input_batch passes = replicate (nat (?N div ?B)) ?B @ [?N mod ?B]"
      by (simp add: batch_sizes_def)
    then have "butlast (map net_input_batch passes) = replicate (nat (?N div ?B)) ?B"
      by simp
    then have "map net_input_batch (butlast passes) = replicate (nat (?N div ?B)) ?B"
      by (simp add: map_butlast)
    then have "set (map net_input_batch (butlast passes)) \<subseteq> {?B}" by auto
    then have "list_all (\<lambda>p. net_input_batch p = ?B) (butlast passes)"
      by (auto simp: list_all_iff)
    with False show ?thesis by simp
  qed
  have tail: "passes \<noteq> [] \<and>
              frames_of_pass work_item (last passes) =
                [end_frame work_item - ?N mod ?B..end_frame work_item - 1] \<and>
              net_input_batch (last passes) = ?N mod ?B \<and>
              data_blob_batch (last passes) = ?N mod ?B"
    if nz: "?N mod ?B \<noteq> 0"
  proof -
    from p(2) nz have m: "map net_input_batch passes =
        replicate (nat (?N div ?B)) ?B @ [?N mod ?B]"
      by (simp add: batch_sizes_def)
    then have ne: "passes \<noteq> []" by auto
    from m have "last (map net_input_batch passes) = ?N mod ?B" by simp
    with ne have n: "net_input_batch (last passes) = ?N mod ?B" by (simp add: last_map)
    from ne p(4) have "well_shaped (last passes)" by simp
    with n have d: "data_blob_batch (last passes) = ?N mod ?B" by (simp add: well_shaped_def)
    from p(5) nz have "input_slots (last passes) = [?N - ?N mod ?B..?N - 1]" by blast
    then have "frames_of_pass work_item (last passes) =
        [start_frame work_item + (?N - ?N mod ?B)..start_frame work_item + (?N - 1)]"
      by (simp only: frames_of_pass_def shift)
    also have "\<dots> = [end_frame work_item - ?N mod ?B..end_frame work_item - 1]"
      by (simp add: algebra_simps)
    finally show ?thesis using ne n d by simp
  qed
  show ?thesis
    by (rule exI [of _ passes]) (use p(1) every shaped full tail in blast)
qed

theorem evaluate_includes_every_frame_once_witness:
  "0 < GLOBAL_BATCH_SIZE scenario_config \<and>
   (0 :: int) \<le> 4 \<and> (4 :: int) \<le> 7 \<and>
   7 + GLOBAL_BATCH_SIZE scenario_config < 2147483648 \<and>
   (\<exists>passes.
      evaluate_work_item scenario_config
        \<lparr>video_index = 0, start_frame = 4, end_frame = 7\<rparr> = Some passes \<and>
      concat (map (frames_of_pass \<lparr>video_index = 0, start_frame = 4, end_frame = 7\<rparr>) passes) =
        [4, 5, 6] \<and>
      list_all well_shaped passes \<and>
      list_all (\<lambda>p. net_input_batch p = 2) (butlast passes) \<and>
      passes \<noteq> [] \<and>
      frames_of_pass \<lparr>video_index = 0, start_frame = 4, end_frame = 7\<rparr> (last passes) = [6] \<and>
      net_input_batch (last passes) = 1 \<and> data_blob_batch (last passes) = 1)"
  using evaluate_includes_every_frame_once
      [of scenario_config "\<lparr>video_index = 0, start_frame = 4, end_frame = 7\<rparr>"]
  by (simp add: scenario_config_def upto_rec1)

section \<open>The load worker's writes\<close>

lemma tiny_frame_buffer_size: "frame_buffer_size tiny_config [tiny_video] = 6"
  by (simp add: frame_buffer_size_def tiny_config_def tiny_video_def
      av_image_get_buffer_size_def frames_per_work_item_def int32_def)

text \<open>
  Claim C2 fails on the code.  All videos share the dimensions of video 0 and the item
  has one frame, yet the frame buffer of 6 bytes (one NV12 frame of 2 by 2 pixels)
  receives bytes \<open>0, \<dots>, 7\<close> in the hardware path, where the second plane is copied with
  the full frame height, and bytes \<open>0, \<dots>, 11\<close> in the software path, where an RGB24
  image is stored: both write outside the frame's slot \<open>[0, 6)\<close> and past the end of the
  buffer.  The asserted offset, \<open>0\<close>, is in bounds all the same.
\<close>

theorem load_worker_writes_past_frame_slot:
  "frame_buffer_size tiny_config [tiny_video] = 6 \<and>
   load_work_item HARDWARE_DECODE tiny_config tiny_decoder [tiny_video] tiny_item =
     Inr [\<lparr>stored_frame = 0, frames_buffer_offset = 0,
           regions_written = [(0, 2), (2, 4), (4, 6), (6, 8)],
           scaler_lookup_argument = None\<rparr>] \<and>
   \<not> regions_within 0 6 [(0, 2), (2, 4), (4, 6), (6, 8)] \<and>
   map regions_written
     (projr (load_work_item SOFTWARE_DECODE tiny_config tiny_decoder [tiny_video] tiny_item)) =
     [[(0, 12)]] \<and>
   \<not> regions_within 0 6 [(0, 12)]"
  by (simp add: tiny_frame_buffer_size [unfolded tiny_video_def] Let_def load_work_item_def tiny_video_def tiny_decoder_def
      tiny_item_def av_image_get_buffer_size_def cudaMemcpy2D_def upto_rec1
      convert_av_frame_to_rgb_def av_image_copy_to_buffer_def sws_getCachedContext_def
      regions_within_def)

text \<open>
  Claim C10 fails on the code.  In the software path the first cache lookup of a work
  item is given the \<^verbatim>\<open>sws_context\<close> of line 306, which no statement has assigned.
\<close>

theorem scaler_lookup_reads_unassigned_pointer:
  "load_work_item SOFTWARE_DECODE tiny_config tiny_decoder [tiny_video] tiny_item =
     Inr [\<lparr>stored_frame = 0, frames_buffer_offset = 0,
           regions_written = [(0, 12)],
           scaler_lookup_argument = Some Indeterminate\<rparr>]"
  by (simp add: tiny_frame_buffer_size [unfolded tiny_video_def] Let_def load_work_item_def tiny_video_def tiny_decoder_def
      tiny_item_def av_image_get_buffer_size_def
      convert_av_frame_to_rgb_def av_image_copy_to_buffer_def sws_getCachedContext_def)

section \<open>Exit status\<close>

text \<open>
  Claim C9 as stated fails: without \<^verbatim>\<open>--help\<close> and without \<^verbatim>\<open>--video_paths_file\<close> the
  handler of lines 740--747 rethrows, so the exception leaves \<^verbatim>\<open>main\<close>; the program
  neither returns 1 nor prints the usage text.
\<close>

theorem missing_paths_file_is_rethrown:
  "main_outcome no_options Pipeline_completes =
     \<lparr>ending = Uncaught required_option, usage_printed = False\<rparr> \<and>
   ending (main_outcome no_options Pipeline_completes) \<noteq> Returns 1 \<and>
   \<not> usage_printed (main_outcome no_options Pipeline_completes)"
  by (simp add: main_outcome_def parse_options_def no_options_def)

text \<open>
  Claim C9, amended.  A run that completes returns 0; \<^verbatim>\<open>--help\<close> prints the usage text
  and returns 1, with or without the paths file; and when the paths file is missing and
  \<^verbatim>\<open>--help\<close> is not given, the \<^verbatim>\<open>required_option\<close> exception leaves \<^verbatim>\<open>main\<close> uncaught and
  no usage text is printed.
\<close>

theorem exit_status_of_main:
  "(\<not> vm_help vm \<and> vm_video_paths_file vm \<noteq> None \<longrightarrow>
      main_outcome vm Pipeline_completes = \<lparr>ending = Returns 0, usage_printed = False\<rparr>) \<and>
   (vm_help vm \<longrightarrow> main_outcome vm r = \<lparr>ending = Returns 1, usage_printed = True\<rparr>) \<and>
   (\<not> vm_help vm \<and> vm_video_paths_file vm = None \<longrightarrow>
      main_outcome vm r = \<lparr>ending = Uncaught required_option, usage_printed = False\<rparr>)"
  by (auto simp: main_outcome_def parse_options_def EXIT_SUCCESS_def split: option.splits)

theorem exit_status_of_main_witness:
  "main_outcome paths_file_only Pipeline_completes =
     \<lparr>ending = Returns 0, usage_printed = False\<rparr> \<and>
   main_outcome help_only Pipeline_completes = \<lparr>ending = Returns 1, usage_printed = True\<rparr> \<and>
   main_outcome no_options Preprocessing_only =
     \<lparr>ending = Uncaught required_option, usage_printed = False\<rparr>"
  using exit_status_of_main [of paths_file_only Pipeline_completes]
    exit_status_of_main [of help_only Pipeline_completes]
    exit_status_of_main [of no_options Preprocessing_only]
  by (simp add: paths_file_only_def help_only_def no_options_def)

section \<open>Invariants of a node\<close>

subsection \<open>The runs of the smallest node\<close>

lemma tiny_config_fields:
  "GPUS_PER_NODE tiny_config = 1" "TASKS_IN_QUEUE_PER_GPU tiny_config = 1"
  "LOAD_WORKERS_PER_NODE tiny_config = 1"
  by (simp_all add: tiny_config_def)

lemma main_program_tiny:
  "main_program tiny_config =
     [Distribute_work, Push_load_sentinel, Join_load 0, Push_eval_sentinel 0, Join_eval 0]"
  by (simp add: main_program_def tiny_config_def)

lemma buffer_pool_tiny:
  "buffer_pool tiny_config = [\<lparr>gpu_device_id = 0, buffer_index = 0\<rparr>]"
  by (simp add: buffer_pool_def tiny_config_def)

lemma sentinel_schedule_state:
  "run_node tiny_config sentinel_schedule =
     Some \<lparr>load_work = [], empty_load_buffers = [\<lparr>gpu_device_id = 0, buffer_index = 0\<rparr>],
       eval_work = (\<lambda>g. [])(0 := [\<lparr>EvalWorkEntry.work_item_index = - 1, buffer_index = 7\<rparr>]),
       load_thread = (\<lambda>w. Wait_work)(0 := Load_returned), eval_thread = (\<lambda>g. Wait_eval),
       main_thread = [Join_eval 0],
       load_work_pushed = [\<lparr>LoadWorkEntry.work_item_index = - 1\<rparr>],
       eval_work_pushed =
         (\<lambda>g. [])(0 := [\<lparr>EvalWorkEntry.work_item_index = - 1, buffer_index = 7\<rparr>]),
       evaluated = []\<rparr>"
  by (simp add: run_node_def sentinel_schedule_def initial_def main_program_tiny
      buffer_pool_tiny main_proceeds_def load_pops_work_def push_def pop_def
      tiny_config_fields)

lemma complete_schedule_state:
  "run_node tiny_config complete_schedule = Some complete_state"
  by (simp add: run_node_def complete_schedule_def complete_state_def initial_def
      main_program_tiny buffer_pool_tiny main_distributes_def main_proceeds_def
      load_pops_work_def load_pops_buffer_def load_pushes_eval_def eval_pops_def
      eval_releases_def push_def pop_def tiny_config_fields Let_def)

lemma decoding_schedule_state:
  "run_node tiny_config decoding_schedule = Some decoding_state"
  by (simp add: run_node_def decoding_schedule_def decoding_state_def initial_def
      main_program_tiny buffer_pool_tiny main_distributes_def
      load_pops_work_def load_pops_buffer_def push_def pop_def tiny_config_fields)

lemma queued_schedule_state:
  "run_node tiny_config queued_schedule = Some queued_state"
  by (simp add: run_node_def queued_schedule_def queued_state_def initial_def
      main_program_tiny buffer_pool_tiny main_distributes_def
      load_pops_work_def load_pops_buffer_def load_pushes_eval_def push_def pop_def
      tiny_config_fields Let_def)

subsection \<open>Buffer identities are conserved\<close>

lemma sum_list_fun_upd_same:
  assumes "F a v = F a (h a)"
  shows "(\<Sum>x\<leftarrow>xs. F x ((h(a := v)) x)) = (\<Sum>x\<leftarrow>xs. F x (h x))"
proof (rule arg_cong [where f = sum_list], rule map_cong)
  show "xs = xs" by simp
  fix x assume "x \<in> set xs"
  show "F x ((h(a := v)) x) = F x (h x)" using assms by simp
qed

lemma sum_list_fun_upd_absent:
  assumes "a \<notin> set xs"
  shows "(\<Sum>x\<leftarrow>xs. F x ((h(a := v)) x)) = (\<Sum>x\<leftarrow>xs. F x (h x))"
proof (rule arg_cong [where f = sum_list], rule map_cong)
  show "xs = xs" by simp
  fix x assume "x \<in> set xs"
  with assms show "F x ((h(a := v)) x) = F x (h x)" by auto
qed

lemma sum_list_fun_upd:
  fixes F :: "'a \<Rightarrow> 'b \<Rightarrow> 'c::comm_monoid_add"
  assumes "distinct xs" and "a \<in> set xs"
  shows "(\<Sum>x\<leftarrow>xs. F x ((h(a := v)) x)) + F a (h a) = (\<Sum>x\<leftarrow>xs. F x (h x)) + F a v"
  using assms
proof (induction xs)
  case Nil
  then show ?case by simp
next
  case (Cons x xs)
  show ?case
  proof (cases "x = a")
    case True
    with Cons.prems have "a \<notin> set xs" by simp
    then have "(\<Sum>x\<leftarrow>xs. F x ((h(a := v)) x)) = (\<Sum>x\<leftarrow>xs. F x (h x))"
      by (rule sum_list_fun_upd_absent)
    with True show ?thesis by (simp add: ac_simps)
  next
    case False
    with Cons.prems have "distinct xs" "a \<in> set xs" by auto
    note IH = Cons.IH [OF this]
    have "(\<Sum>y\<leftarrow>x # xs. F y ((h(a := v)) y)) + F a (h a) =
          F x (h x) + ((\<Sum>y\<leftarrow>xs. F y ((h(a := v)) y)) + F a (h a))"
      using False by (simp add: add.assoc)
    also have "\<dots> = F x (h x) + ((\<Sum>y\<leftarrow>xs. F y (h y)) + F a v)"
      by (simp only: IH)
    finally show ?thesis by (simp add: add.assoc)
  qed
qed

lemma loaders_update:
  assumes "0 \<le> w" and "w < L"
  shows "(\<Sum>x\<leftarrow>[0..L - 1]. held_by_loader ((lt(w := pc)) x)) + held_by_loader (lt w) =
         (\<Sum>x\<leftarrow>[0..L - 1]. held_by_loader (lt x)) + held_by_loader pc"
  using assms by (intro sum_list_fun_upd [where F = "\<lambda>x. held_by_loader"]) simp_all

lemma queues_update:
  assumes "0 \<le> g" and "g < G"
  shows "(\<Sum>x\<leftarrow>[0..G - 1]. queued_for x ((ew(g := q)) x)) + queued_for g (ew g) =
         (\<Sum>x\<leftarrow>[0..G - 1]. queued_for x (ew x)) + queued_for g q"
  using assms by (intro sum_list_fun_upd [where F = queued_for]) simp_all

lemma evaluators_update:
  assumes "0 \<le> g" and "g < G"
  shows "(\<Sum>x\<leftarrow>[0..G - 1]. held_by_evaluator x ((et(g := pc)) x)) + held_by_evaluator g (et g) =
         (\<Sum>x\<leftarrow>[0..G - 1]. held_by_evaluator x (et x)) + held_by_evaluator g pc"
  using assms by (intro sum_list_fun_upd [where F = held_by_evaluator]) simp_all

lemma queues_update_same:
  assumes "queued_for g q = queued_for g (ew g)"
  shows "(\<Sum>x\<leftarrow>xs. queued_for x ((ew(g := q)) x)) = (\<Sum>x\<leftarrow>xs. queued_for x (ew x))"
  using assms by (rule sum_list_fun_upd_same [where F = queued_for])

lemma loaders_update_same:
  assumes "held_by_loader pc = held_by_loader (lt w)"
  shows "(\<Sum>x\<leftarrow>xs. held_by_loader ((lt(w := pc)) x)) = (\<Sum>x\<leftarrow>xs. held_by_loader (lt x))"
  using assms by (rule sum_list_fun_upd_same [where F = "\<lambda>x. held_by_loader"])

lemma evaluators_update_same:
  assumes "held_by_evaluator g pc = held_by_evaluator g (et g)"
  shows "(\<Sum>x\<leftarrow>xs. held_by_evaluator x ((et(g := pc)) x)) =
         (\<Sum>x\<leftarrow>xs. held_by_evaluator x (et x))"
  using assms by (rule sum_list_fun_upd_same [where F = held_by_evaluator])

lemma in_buffer_pool:
  "b \<in> set (buffer_pool c) \<longleftrightarrow>
     0 \<le> gpu_device_id b \<and> gpu_device_id b < GPUS_PER_NODE c \<and>
     0 \<le> LoadBufferEntry.buffer_index b \<and>
     LoadBufferEntry.buffer_index b < TASKS_IN_QUEUE_PER_GPU c"
  by (cases b) (force simp: buffer_pool_def)

lemma queued_for_sentinel:
  "queued_for g (push \<lparr>EvalWorkEntry.work_item_index = - 1, buffer_index = v\<rparr> q) =
   queued_for g q"
  by (simp add: queued_for_def push_def carries_buffer_def)

lemma identities_main_distributes:
  "main_distributes k s = Some s' \<Longrightarrow> buffer_identities c s' = buffer_identities c s"
  by (auto simp: main_distributes_def buffer_identities_def split: list.splits if_splits)

lemma identities_main_proceeds:
  assumes "main_proceeds v s = Some s'"
  shows "buffer_identities c s' = buffer_identities c s"
proof (cases "main_thread s")
  case Nil
  with assms show ?thesis by (simp add: main_proceeds_def)
next
  case (Cons a rest)
  show ?thesis
  proof (cases a)
    case (Push_eval_sentinel i)
    with assms Cons have s': "s' = s\<lparr>eval_work := (eval_work s)
                          (i := push \<lparr>EvalWorkEntry.work_item_index = - 1, buffer_index = v\<rparr>
                                  (eval_work s i)),
                        eval_work_pushed := (eval_work_pushed s)
                          (i := eval_work_pushed s i @
                                  [\<lparr>EvalWorkEntry.work_item_index = - 1, buffer_index = v\<rparr>]),
                        main_thread := rest\<rparr>"
      by (simp add: main_proceeds_def)
    show ?thesis
      by (simp add: s' buffer_identities_def queues_update_same queued_for_sentinel
          del: fun_upd_apply)
  qed (use assms Cons in \<open>auto simp: main_proceeds_def buffer_identities_def split: if_splits\<close>)
qed

lemma pop_Some: "pop q = Some (x, rest) \<longleftrightarrow> q = x # rest"
  by (simp add: pop_def split: list.splits)

lemma identities_load_pops_work:
  assumes "load_pops_work c w s = Some s'"
  shows "buffer_identities c s' = buffer_identities c s"
proof -
  from assms obtain e rest where
    g: "load_thread s w = Wait_work" and
    s': "s' = s\<lparr>load_work := rest,
                 load_thread := (load_thread s)
                   (w := if LoadWorkEntry.work_item_index e = - 1
                         then Load_returned else Wait_buffer e)\<rparr>"
    by (auto simp: load_pops_work_def split: if_splits option.splits)
  have "held_by_loader (if LoadWorkEntry.work_item_index e = - 1
                         then Load_returned else Wait_buffer e) =
        held_by_loader (load_thread s w)"
    by (simp add: g held_by_loader_def)
  then show ?thesis
    by (simp add: s' buffer_identities_def loaders_update_same del: fun_upd_apply)
qed

lemma identities_load_pops_buffer:
  assumes "load_pops_buffer c w s = Some s'"
  shows "buffer_identities c s' = buffer_identities c s"
proof -
  from assms obtain e b rest where
    w: "0 \<le> w" "w < LOAD_WORKERS_PER_NODE c" and
    g: "load_thread s w = Wait_buffer e" and
    q: "empty_load_buffers s = b # rest" and
    s': "s' = s\<lparr>empty_load_buffers := rest,
                 load_thread := (load_thread s)(w := Decoding e b)\<rparr>"
    by (auto simp: load_pops_buffer_def pop_Some split: if_splits option.splits load_pc.splits)
  have "(\<Sum>x\<leftarrow>[0..LOAD_WORKERS_PER_NODE c - 1].
           held_by_loader (((load_thread s)(w := Decoding e b)) x)) =
        (\<Sum>x\<leftarrow>[0..LOAD_WORKERS_PER_NODE c - 1]. held_by_loader (load_thread s x)) + {#b#}"
    using loaders_update [OF w, of "load_thread s" "Decoding e b"]
    by (simp add: g held_by_loader_def del: fun_upd_apply)
  then show ?thesis
    by (simp add: s' q buffer_identities_def del: fun_upd_apply)
qed

lemma identities_eval_releases:
  assumes "eval_releases c g s = Some s'"
  shows "buffer_identities c s' = buffer_identities c s"
proof -
  from assms obtain e where
    g: "0 \<le> g" "g < GPUS_PER_NODE c" and
    p: "eval_thread s g = Processing e" and
    s': "s' = s\<lparr>empty_load_buffers := push (identity_of g e) (empty_load_buffers s),
                 eval_thread := (eval_thread s)(g := Wait_eval),
                 evaluated := evaluated s @
                   [(g, EvalWorkEntry.work_item_index e,
                     EvalWorkEntry.buffer_index e)]\<rparr>"
    by (auto simp: eval_releases_def identity_of_def split: if_splits eval_pc.splits)
  have "(\<Sum>x\<leftarrow>[0..GPUS_PER_NODE c - 1]. held_by_evaluator x (eval_thread s x)) =
        (\<Sum>x\<leftarrow>[0..GPUS_PER_NODE c - 1].
           held_by_evaluator x (((eval_thread s)(g := Wait_eval)) x)) + {#identity_of g e#}"
    using evaluators_update [OF g, of "eval_thread s" Wait_eval]
    by (simp add: p held_by_evaluator_def del: fun_upd_apply)
  then show ?thesis
    by (simp add: s' buffer_identities_def push_def del: fun_upd_apply)
qed

lemma identities_eval_pops:
  assumes "eval_pops c g s = Some s'"
  shows "buffer_identities c s' = buffer_identities c s"
proof -
  from assms obtain e rest where
    g: "0 \<le> g" "g < GPUS_PER_NODE c" and
    p: "eval_thread s g = Wait_eval" and
    q: "eval_work s g = e # rest" and
    s': "s' = s\<lparr>eval_work := (eval_work s)(g := rest),
                 eval_thread := (eval_thread s)
                   (g := if EvalWorkEntry.work_item_index e = - 1
                         then Eval_returned else Processing e)\<rparr>"
    by (auto simp: eval_pops_def pop_Some split: if_splits option.splits)
  let ?pc = "if EvalWorkEntry.work_item_index e = - 1 then Eval_returned else Processing e"
  have qc: "queued_for g (e # rest) = held_by_evaluator g ?pc + queued_for g rest"
    by (simp add: queued_for_def held_by_evaluator_def carries_buffer_def)
  have "(\<Sum>x\<leftarrow>[0..GPUS_PER_NODE c - 1]. queued_for x (((eval_work s)(g := rest)) x)) +
          (held_by_evaluator g ?pc + queued_for g rest) =
        (\<Sum>x\<leftarrow>[0..GPUS_PER_NODE c - 1]. queued_for x (eval_work s x)) + queued_for g rest"
    using queues_update [OF g, of "eval_work s" rest] by (simp only: q qc)
  then have Q: "(\<Sum>x\<leftarrow>[0..GPUS_PER_NODE c - 1]. queued_for x (eval_work s x)) =
        (\<Sum>x\<leftarrow>[0..GPUS_PER_NODE c - 1]. queued_for x (((eval_work s)(g := rest)) x)) +
        held_by_evaluator g ?pc"
    by (simp only: add.assoc [symmetric] add_right_cancel)
  have E: "(\<Sum>x\<leftarrow>[0..GPUS_PER_NODE c - 1].
           held_by_evaluator x (((eval_thread s)(g := ?pc)) x)) =
        (\<Sum>x\<leftarrow>[0..GPUS_PER_NODE c - 1]. held_by_evaluator x (eval_thread s x)) +
        held_by_evaluator g ?pc"
    using evaluators_update [OF g, of "eval_thread s" ?pc]
    by (simp add: p held_by_evaluator_def del: fun_upd_apply)
  show ?thesis
    by (simp add: s' buffer_identities_def Q E del: fun_upd_apply)
qed

lemma identities_load_pushes_eval:
  assumes "load_pushes_eval c w s = Some s'"
    and hold: "loaders_hold_work s"
    and pool: "buffer_identities c s = mset (buffer_pool c)"
  shows "buffer_identities c s' = buffer_identities c s"
proof -
  from assms(1) obtain e b where
    w: "0 \<le> w" "w < LOAD_WORKERS_PER_NODE c" and
    d: "load_thread s w = Decoding e b" and
    s': "s' = s\<lparr>eval_work := (eval_work s)
                   (gpu_device_id b :=
                      push \<lparr>EvalWorkEntry.work_item_index = LoadWorkEntry.work_item_index e,
                            buffer_index = LoadBufferEntry.buffer_index b\<rparr>
                        (eval_work s (gpu_device_id b))),
                 eval_work_pushed := (eval_work_pushed s)
                   (gpu_device_id b := eval_work_pushed s (gpu_device_id b) @
                      [\<lparr>EvalWorkEntry.work_item_index = LoadWorkEntry.work_item_index e,
                        buffer_index = LoadBufferEntry.buffer_index b\<rparr>]),
                 load_thread := (load_thread s)(w := Wait_work)\<rparr>"
    by (auto simp: load_pushes_eval_def Let_def split: if_splits load_pc.splits)
  have ne: "LoadWorkEntry.work_item_index e \<noteq> - 1"
    using hold d by (auto simp: loaders_hold_work_def holds_work_def dest: spec [of _ w])
  have L: "(\<Sum>x\<leftarrow>[0..LOAD_WORKERS_PER_NODE c - 1]. held_by_loader (load_thread s x)) =
        (\<Sum>x\<leftarrow>[0..LOAD_WORKERS_PER_NODE c - 1].
           held_by_loader (((load_thread s)(w := Wait_work)) x)) + {#b#}"
    using loaders_update [OF w, of "load_thread s" Wait_work]
    by (simp add: d held_by_loader_def del: fun_upd_apply)
  have "b \<in> set_mset (\<Sum>x\<leftarrow>[0..LOAD_WORKERS_PER_NODE c - 1]. held_by_loader (load_thread s x))"
    by (simp add: L)
  then have "b \<in># buffer_identities c s"
    by (simp add: buffer_identities_def)
  then have "b \<in> set (buffer_pool c)" by (simp add: pool)
  then have g: "0 \<le> gpu_device_id b" "gpu_device_id b < GPUS_PER_NODE c"
    by (simp_all add: in_buffer_pool)
  let ?e = "\<lparr>EvalWorkEntry.work_item_index = LoadWorkEntry.work_item_index e,
             buffer_index = LoadBufferEntry.buffer_index b\<rparr>"
  have qp: "queued_for (gpu_device_id b) (push ?e (eval_work s (gpu_device_id b))) =
            queued_for (gpu_device_id b) (eval_work s (gpu_device_id b)) + {#b#}"
    using ne by (simp add: queued_for_def push_def carries_buffer_def identity_of_def)
  have Q: "(\<Sum>x\<leftarrow>[0..GPUS_PER_NODE c - 1].
             queued_for x (((eval_work s)
               (gpu_device_id b := push ?e (eval_work s (gpu_device_id b)))) x)) =
           (\<Sum>x\<leftarrow>[0..GPUS_PER_NODE c - 1]. queued_for x (eval_work s x)) + {#b#}"
  proof -
    have "(\<Sum>x\<leftarrow>[0..GPUS_PER_NODE c - 1].
             queued_for x (((eval_work s)
               (gpu_device_id b := push ?e (eval_work s (gpu_device_id b)))) x)) +
            queued_for (gpu_device_id b) (eval_work s (gpu_device_id b)) =
          (\<Sum>x\<leftarrow>[0..GPUS_PER_NODE c - 1]. queued_for x (eval_work s x)) +
            (queued_for (gpu_device_id b) (eval_work s (gpu_device_id b)) + {#b#})"
      using queues_update [OF g, of "eval_work s" "push ?e (eval_work s (gpu_device_id b))"]
      by (simp only: qp)
    then show ?thesis by simp
  qed
  show ?thesis
    by (simp add: s' buffer_identities_def L Q del: fun_upd_apply)
qed

lemma step_keeps_identities:
  assumes "step c e s = Some s'"
    and "loaders_hold_work s"
    and "buffer_identities c s = mset (buffer_pool c)"
  shows "buffer_identities c s' = mset (buffer_pool c)"
  using assms
  by (cases e)
    (simp_all add: identities_main_distributes identities_main_proceeds
      identities_load_pops_work identities_load_pops_buffer identities_load_pushes_eval
      identities_eval_pops identities_eval_releases)

lemma holds_work_simps:
  "holds_work Wait_work" "holds_work Load_returned"
  "holds_work (Wait_buffer e) = (LoadWorkEntry.work_item_index e \<noteq> - 1)"
  "holds_work (Decoding e b) = (LoadWorkEntry.work_item_index e \<noteq> - 1)"
  by (simp_all add: holds_work_def)

lemma loaders_hold_workD: "loaders_hold_work s \<Longrightarrow> holds_work (load_thread s w)"
  by (simp add: loaders_hold_work_def)

lemma loaders_hold_work_update:
  "loaders_hold_work s \<Longrightarrow> holds_work pc \<Longrightarrow> load_thread s' = (load_thread s)(w := pc) \<Longrightarrow>
   loaders_hold_work s'"
  by (simp add: loaders_hold_work_def)

lemma loaders_hold_work_same:
  "loaders_hold_work s \<Longrightarrow> load_thread s' = load_thread s \<Longrightarrow> loaders_hold_work s'"
  by (simp add: loaders_hold_work_def)

lemma step_keeps_loaders_hold_work:
  assumes "step c e s = Some s'" and inv: "loaders_hold_work s"
  shows "loaders_hold_work s'"
proof (cases e)
  case (Main_distributes k)
  with assms have "load_thread s' = load_thread s"
    by (auto simp: main_distributes_def split: list.splits if_splits)
  with inv show ?thesis by (rule loaders_hold_work_same)
next
  case (Main_proceeds v)
  with assms have "load_thread s' = load_thread s"
    by (auto simp: main_proceeds_def split: list.splits main_action.splits if_splits)
  with inv show ?thesis by (rule loaders_hold_work_same)
next
  case (Load_pops_work w)
  with assms obtain x where
    "load_thread s' = (load_thread s)
       (w := if LoadWorkEntry.work_item_index x = - 1 then Load_returned else Wait_buffer x)"
    by (auto simp: load_pops_work_def split: option.splits if_splits)
  moreover have
    "holds_work (if LoadWorkEntry.work_item_index x = - 1 then Load_returned else Wait_buffer x)"
    by (simp add: holds_work_simps)
  ultimately show ?thesis using inv by (blast intro: loaders_hold_work_update)
next
  case (Load_pops_buffer w)
  with assms obtain e b where
    "load_thread s w = Wait_buffer e" "load_thread s' = (load_thread s)(w := Decoding e b)"
    by (auto simp: load_pops_buffer_def split: option.splits if_splits load_pc.splits)
  moreover from this loaders_hold_workD [OF inv, of w] have "holds_work (Decoding e b)"
    by (simp add: holds_work_simps)
  ultimately show ?thesis using inv by (blast intro: loaders_hold_work_update)
next
  case (Load_pushes_eval w)
  with assms have "load_thread s' = (load_thread s)(w := Wait_work)"
    by (auto simp: load_pushes_eval_def Let_def split: if_splits load_pc.splits)
  with inv show ?thesis by (blast intro: loaders_hold_work_update holds_work_simps)
next
  case (Eval_pops g)
  with assms have "load_thread s' = load_thread s"
    by (auto simp: eval_pops_def split: option.splits if_splits)
  with inv show ?thesis by (rule loaders_hold_work_same)
next
  case (Eval_releases g)
  with assms have "load_thread s' = load_thread s"
    by (auto simp: eval_releases_def split: eval_pc.splits if_splits)
  with inv show ?thesis by (rule loaders_hold_work_same)
qed

lemma initial_identities: "buffer_identities c (initial c) = mset (buffer_pool c)"
  by (simp add: buffer_identities_def initial_def held_by_loader_def queued_for_def
      held_by_evaluator_def)

lemma initial_loaders_hold_work: "loaders_hold_work (initial c)"
  by (simp add: loaders_hold_work_def initial_def holds_work_simps)

lemma run_keeps_pool:
  "run_from c s es = Some s' \<Longrightarrow> loaders_hold_work s \<Longrightarrow>
   buffer_identities c s = mset (buffer_pool c) \<Longrightarrow>
   loaders_hold_work s' \<and> buffer_identities c s' = mset (buffer_pool c)"
proof (induction es arbitrary: s)
  case Nil
  then show ?case by simp
next
  case (Cons e es)
  from Cons.prems(1) obtain s1 where
    s1: "step c e s = Some s1" and rest: "run_from c s1 es = Some s'"
    by (auto split: option.splits)
  show ?case
    using Cons.IH [OF rest step_keeps_loaders_hold_work [OF s1 Cons.prems(2)]
        step_keeps_identities [OF s1 Cons.prems(2,3)]] .
qed

lemma run_node_pool:
  assumes "run_node c es = Some s"
  shows "loaders_hold_work s" and "buffer_identities c s = mset (buffer_pool c)"
  using run_keeps_pool [OF assms [unfolded run_node_def] initial_loaders_hold_work
      initial_identities]
  by simp_all

text \<open>Counting the identities of one GPU.\<close>

lemma count_loaders:
  "size (filter_mset (\<lambda>b. gpu_device_id b = g) (\<Sum>w\<leftarrow>ws. held_by_loader (lt w))) =
   length (filter (\<lambda>w. loader_holds g (lt w)) ws)"
  by (induction ws) (auto simp: held_by_loader_def loader_holds_def split: load_pc.splits)

lemma filter_queued_for:
  "filter_mset (\<lambda>b. gpu_device_id b = g) (queued_for x q) =
   (if x = g then queued_for x q else {#})"
  by (induction q) (auto simp: queued_for_def identity_of_def)

lemma size_queued_for: "size (queued_for x q) = length (filter carries_buffer q)"
  by (simp add: queued_for_def flip: mset_filter)

lemma count_queues:
  assumes "distinct gs"
  shows "size (filter_mset (\<lambda>b. gpu_device_id b = g) (\<Sum>x\<leftarrow>gs. queued_for x (ew x))) =
         (if g \<in> set gs then length (filter carries_buffer (ew g)) else 0)"
  using assms by (induction gs) (auto simp: filter_queued_for size_queued_for)

lemma filter_held_by_evaluator:
  "filter_mset (\<lambda>b. gpu_device_id b = g) (held_by_evaluator x pc) =
   (if x = g then held_by_evaluator x pc else {#})"
  by (auto simp: held_by_evaluator_def identity_of_def split: eval_pc.splits)

lemma size_held_by_evaluator:
  "size (held_by_evaluator x pc) = (if evaluator_holds pc then 1 else 0)"
  by (auto simp: held_by_evaluator_def evaluator_holds_def split: eval_pc.splits)

lemma held_by_evaluator_empty:
  "held_by_evaluator x pc = {#} \<longleftrightarrow> \<not> evaluator_holds pc"
  by (auto simp: held_by_evaluator_def evaluator_holds_def split: eval_pc.splits)

lemma count_evaluators:
  assumes "distinct gs"
  shows "size (filter_mset (\<lambda>b. gpu_device_id b = g)
                 (\<Sum>x\<leftarrow>gs. held_by_evaluator x (et x))) =
         (if g \<in> set gs \<and> evaluator_holds (et g) then 1 else 0)"
  using assms
  by (induction gs)
    (auto simp: filter_held_by_evaluator size_held_by_evaluator held_by_evaluator_empty)

lemma buffers_accounted_identities:
  assumes "0 \<le> g" and "g < GPUS_PER_NODE c"
  shows "buffers_accounted c s g =
         int (size (filter_mset (\<lambda>b. gpu_device_id b = g) (buffer_identities c s)))"
proof -
  have "size (filter_mset (\<lambda>b. gpu_device_id b = g) (mset (empty_load_buffers s))) =
        length (filter (\<lambda>b. gpu_device_id b = g) (empty_load_buffers s))"
    by (simp flip: mset_filter)
  then show ?thesis
    using assms
    by (simp add: buffers_accounted_def buffer_identities_def count_loaders count_queues
        count_evaluators)
qed

lemma pool_of_gpu:
  "filter (\<lambda>b. gpu_device_id b = g)
     (concat (map (\<lambda>gpu. map (\<lambda>i. \<lparr>gpu_device_id = gpu, buffer_index = i\<rparr>) is) gs)) =
   concat (map (\<lambda>gpu. map (\<lambda>i. \<lparr>gpu_device_id = gpu, buffer_index = i\<rparr>) is) (filter (\<lambda>x. x = g) gs))"
  by (induction gs) (auto simp: filter_empty_conv)

lemma filter_eq_upto:
  "filter (\<lambda>x. x = g) [a..b] = (if a \<le> g \<and> g \<le> b then [g] else [])"
proof (cases "a \<le> g \<and> g \<le> b")
  case True
  then have "[a..b] = [a..g - 1] @ g # [g + 1..b]" by (simp add: upto_split3)
  moreover have "filter (\<lambda>x. x = g) [a..g - 1] = []" "filter (\<lambda>x. x = g) [g + 1..b] = []"
    by (simp_all add: filter_empty_conv)
  ultimately show ?thesis using True by simp
next
  case False
  then have "filter (\<lambda>x. x = g) [a..b] = []" by (auto simp: filter_empty_conv)
  with False show ?thesis by simp
qed

lemma buffers_per_gpu:
  assumes "0 \<le> g" and "g < GPUS_PER_NODE c" and "0 \<le> TASKS_IN_QUEUE_PER_GPU c"
  shows "int (size (filter_mset (\<lambda>b. gpu_device_id b = g) (mset (buffer_pool c)))) =
         TASKS_IN_QUEUE_PER_GPU c"
proof -
  have "size (filter_mset (\<lambda>b. gpu_device_id b = g) (mset (buffer_pool c))) =
        length (filter (\<lambda>b. gpu_device_id b = g) (buffer_pool c))"
    by (simp flip: mset_filter)
  also have "\<dots> = nat (TASKS_IN_QUEUE_PER_GPU c)"
    using assms by (simp add: buffer_pool_def pool_of_gpu filter_eq_upto)
  finally show ?thesis using assms by simp
qed

lemma distinct_pool_lists:
  assumes "distinct gs" and "distinct js"
  shows "distinct (concat (map (\<lambda>gpu. map (\<lambda>i. \<lparr>gpu_device_id = gpu, buffer_index = i\<rparr>) js) gs))"
  using assms by (induction gs) (auto simp: distinct_map inj_on_def)

lemma distinct_buffer_pool: "distinct (buffer_pool c)"
  by (simp add: buffer_pool_def distinct_pool_lists)

lemma count_pool_le: "count (mset (buffer_pool c)) b \<le> 1"
  using distinct_buffer_pool [of c] by (simp add: distinct_count_atmost_1)

lemma decoding_buffer_counted:
  assumes "0 \<le> w" and "w < LOAD_WORKERS_PER_NODE c" and "load_thread s w = Decoding e b"
  shows "b \<in># (\<Sum>x\<leftarrow>[0..LOAD_WORKERS_PER_NODE c - 1]. held_by_loader (load_thread s x))"
proof -
  have "w \<in> set [0..LOAD_WORKERS_PER_NODE c - 1]" using assms by simp
  then show ?thesis
    using assms(3) by (force simp: set_mset_sum_list held_by_loader_def)
qed

lemma decoding_buffer_unique:
  assumes pool: "buffer_identities c s = mset (buffer_pool c)"
    and w: "0 \<le> w" "w < LOAD_WORKERS_PER_NODE c" and d: "load_thread s w = Decoding e b"
  shows "b \<notin># (\<Sum>x\<leftarrow>[0..GPUS_PER_NODE c - 1]. queued_for x (eval_work s x))"
    and "b \<notin># (\<Sum>x\<leftarrow>[0..GPUS_PER_NODE c - 1]. held_by_evaluator x (eval_thread s x))"
    and "b \<in> set (buffer_pool c)"
proof -
  let ?L = "\<Sum>x\<leftarrow>[0..LOAD_WORKERS_PER_NODE c - 1]. held_by_loader (load_thread s x)"
  let ?Q = "\<Sum>x\<leftarrow>[0..GPUS_PER_NODE c - 1]. queued_for x (eval_work s x)"
  let ?E = "\<Sum>x\<leftarrow>[0..GPUS_PER_NODE c - 1]. held_by_evaluator x (eval_thread s x)"
  have one: "0 < count ?L b"
    using decoding_buffer_counted [OF w d] by (simp only: count_greater_zero_iff)
  have "count (mset (empty_load_buffers s)) b + count ?L b + count ?Q b + count ?E b \<le> 1"
    using count_pool_le [of c b] by (simp add: pool [symmetric] buffer_identities_def)
  with one have "count ?Q b = 0" "count ?E b = 0" by linarith+
  then show "b \<notin># ?Q" "b \<notin># ?E" by (simp_all add: count_eq_zero_iff)
  have "b \<in># buffer_identities c s"
    using decoding_buffer_counted [OF w d] by (simp add: buffer_identities_def)
  then show "b \<in> set (buffer_pool c)" by (simp add: pool)
qed

lemma queued_member:
  assumes "0 \<le> g" and "g < GPUS_PER_NODE c" and "e \<in> set (ew g)" and "carries_buffer e"
  shows "identity_of g e \<in># (\<Sum>x\<leftarrow>[0..GPUS_PER_NODE c - 1]. queued_for x (ew x))"
proof -
  have "g \<in> set [0..GPUS_PER_NODE c - 1]" using assms by simp
  moreover have "identity_of g e \<in># queued_for g (ew g)"
    using assms by (simp add: queued_for_def)
  ultimately show ?thesis by (force simp: set_mset_sum_list)
qed

lemma processing_member:
  assumes "0 \<le> g" and "g < GPUS_PER_NODE c" and "et g = Processing e"
  shows "identity_of g e \<in># (\<Sum>x\<leftarrow>[0..GPUS_PER_NODE c - 1]. held_by_evaluator x (et x))"
proof -
  have "g \<in> set [0..GPUS_PER_NODE c - 1]" using assms by simp
  moreover have "identity_of g e \<in># held_by_evaluator g (et g)"
    using assms by (simp add: held_by_evaluator_def)
  ultimately show ?thesis by (force simp: set_mset_sum_list)
qed

text \<open>
  Claim C4 as stated fails: it counts the entries of \<^verbatim>\<open>eval_work[g]\<close>, and during shutdown
  one of them is the sentinel, which carries no buffer.  With one buffer for GPU 0 and no
  work at all, once \<^verbatim>\<open>main\<close> has pushed the sentinel the buffer is in
  \<^verbatim>\<open>empty_load_buffers\<close> and the sentinel is in \<^verbatim>\<open>eval_work[0]\<close>: the sum is 2.
\<close>

theorem sentinel_entry_breaks_buffer_count:
  "map_option (\<lambda>s. buffers_counting_sentinels tiny_config s 0)
     (run_node tiny_config sentinel_schedule) = Some 2 \<and>
   TASKS_IN_QUEUE_PER_GPU tiny_config = 1"
  by (simp add: sentinel_schedule_state buffers_counting_sentinels_def loader_holds_def
      evaluator_holds_def tiny_config_fields)

text \<open>
  Claim C4, amended.  Every buffer identity is in \<^verbatim>\<open>empty_load_buffers\<close> at startup.  In
  every state of every run the identities in \<^verbatim>\<open>empty_load_buffers\<close>, held by load workers,
  carried by the entries of the evaluate queues that are not sentinels and held by evaluate
  workers are the identities of the pool, each once; so a buffer that an evaluate worker
  pushes back has the identity it had.  For every GPU \<open>g\<close> the four counts add up to
  \<^verbatim>\<open>TASKS_IN_QUEUE_PER_GPU\<close>, provided that this constant is not negative.
\<close>

theorem buffers_conserved:
  assumes "run_node c es = Some s"
    and "0 \<le> TASKS_IN_QUEUE_PER_GPU c"
  shows "empty_load_buffers (initial c) = buffer_pool c \<and>
         buffer_identities c s = mset (buffer_pool c) \<and>
         (\<forall>g \<in> set [0..GPUS_PER_NODE c - 1].
            buffers_accounted c s g = TASKS_IN_QUEUE_PER_GPU c)"
  using assms run_node_pool(2) [OF assms(1)]
  by (simp add: initial_def buffers_accounted_identities buffers_per_gpu)

theorem buffers_conserved_witness:
  "run_node tiny_config decoding_schedule = Some decoding_state \<and>
   0 \<le> TASKS_IN_QUEUE_PER_GPU tiny_config \<and>
   empty_load_buffers decoding_state = [] \<and>
   buffer_identities tiny_config decoding_state = {#\<lparr>gpu_device_id = 0, buffer_index = 0\<rparr>#} \<and>
   buffers_accounted tiny_config decoding_state 0 = 1"
  using buffers_conserved [OF decoding_schedule_state]
  by (simp add: decoding_schedule_state tiny_config_fields buffer_pool_tiny
      decoding_state_def)

subsection \<open>Shutdown by sentinels\<close>

text \<open>Structure of the program.\<close>

lemma distribute_only_first:
  assumes "suffix ys (main_program c)" and "Distribute_work \<in> set ys"
  shows "ys = main_program c"
proof -
  let ?tl = "map (\<lambda>i. Push_load_sentinel) [0..LOAD_WORKERS_PER_NODE c - 1] @
     map Join_load [0..LOAD_WORKERS_PER_NODE c - 1] @
     map Push_eval_sentinel [0..GPUS_PER_NODE c - 1] @
     map Join_eval [0..GPUS_PER_NODE c - 1]"
  have p: "main_program c = Distribute_work # ?tl" by (simp add: main_program_def)
  have "Distribute_work \<notin> set ?tl" by auto
  moreover from assms(1) have "ys = main_program c \<or> suffix ys ?tl"
    by (auto simp: p suffix_Cons)
  ultimately show ?thesis using assms(2) set_mono_suffix [of ys ?tl] by auto
qed

lemma head_after_distribution:
  assumes "suffix (a # rest) (main_program c)"
  shows "Distribute_work \<notin> set rest"
proof
  assume "Distribute_work \<in> set rest"
  moreover have "suffix rest (main_program c)" using assms by (rule suffix_ConsD)
  ultimately have "rest = main_program c" by (rule distribute_only_first [rotated])
  with assms have "suffix (a # rest) rest" by simp
  then have "length (a # rest) \<le> length rest" by (rule suffix_length_le)
  then show False by simp
qed

lemma eval_sentinel_after_joins:
  assumes "suffix ys (main_program c)"
    and "0 \<le> g" "g < GPUS_PER_NODE c"
    and "Push_eval_sentinel g \<notin> set ys"
  shows "Join_load w \<notin> set ys"
proof -
  let ?A = "Distribute_work # map (\<lambda>i. Push_load_sentinel) [0..LOAD_WORKERS_PER_NODE c - 1] @
     map Join_load [0..LOAD_WORKERS_PER_NODE c - 1]"
  let ?B = "map Push_eval_sentinel [0..GPUS_PER_NODE c - 1] @
     map Join_eval [0..GPUS_PER_NODE c - 1]"
  have p: "main_program c = ?A @ ?B" by (simp add: main_program_def)
  have inB: "Push_eval_sentinel g \<in> set ?B" using assms(2,3) by simp
  from assms(1) have "suffix ys ?B \<or> (\<exists>xs. ys = xs @ ?B \<and> suffix xs ?A)"
    unfolding p by (simp only: suffix_append)
  then have "suffix ys ?B"
    using inB assms(4) by auto
  then have "set ys \<subseteq> set ?B" by (rule set_mono_suffix)
  moreover have "Join_load w \<notin> set ?B" by auto
  ultimately show ?thesis by auto
qed

lemma count_load_sentinel_pushes:
  "count_list (main_program c) Push_load_sentinel = nat (LOAD_WORKERS_PER_NODE c)"
proof -
  have a: "count_list (map (\<lambda>i. Push_load_sentinel) xs) Push_load_sentinel = length xs"
    for xs :: "int list"
    by (induction xs) simp_all
  have b: "Push_load_sentinel \<notin> set (map Join_load xs)"
    "Push_load_sentinel \<notin> set (map Push_eval_sentinel xs)"
    "Push_load_sentinel \<notin> set (map Join_eval xs)" for xs
    by auto
  show ?thesis by (simp add: main_program_def a b del: set_map)
qed

lemma count_eval_sentinel_pushes:
  assumes "0 \<le> g" and "g < GPUS_PER_NODE c"
  shows "count_list (main_program c) (Push_eval_sentinel g) = 1"
proof -
  have a: "Push_eval_sentinel g \<notin> set (map (\<lambda>i. Push_load_sentinel) xs)"
    "Push_eval_sentinel g \<notin> set (map Join_load xs)"
    "Push_eval_sentinel g \<notin> set (map Join_eval xs)" for xs :: "int list"
    by auto
  have "count_list (map Push_eval_sentinel [0..GPUS_PER_NODE c - 1]) (Push_eval_sentinel g) =
        count_list [0..GPUS_PER_NODE c - 1] g"
    by (rule count_list_map_conv) (simp add: inj_on_def)
  also have "\<dots> = length (filter (\<lambda>x. x = g) [0..GPUS_PER_NODE c - 1])"
  proof -
    have "((=) g) = (\<lambda>x. x = g)" by auto
    then show ?thesis by (simp add: count_list_eq_length_filter)
  qed
  also have "\<dots> = 1" using assms by (simp add: filter_eq_upto)
  finally show ?thesis by (simp add: main_program_def a del: set_map)
qed

text \<open>Steps of the workers leave main's program and the load history alone.\<close>

lemma worker_step_main:
  assumes "step c e s = Some s'"
    and "\<And>k. e \<noteq> Main_distributes k" and "\<And>v. e \<noteq> Main_proceeds v"
  shows "main_thread s' = main_thread s" and "load_work_pushed s' = load_work_pushed s"
  using assms
  by (cases e;
      auto simp: load_pops_work_def load_pops_buffer_def load_pushes_eval_def eval_pops_def
        eval_releases_def Let_def split: option.splits if_splits load_pc.splits eval_pc.splits)+

lemma step_main_suffix:
  assumes "step c e s = Some s'"
  shows "suffix (main_thread s') (main_thread s)"
proof (cases e)
  case (Main_distributes k)
  with assms show ?thesis
    by (auto simp: main_distributes_def split: list.splits if_splits)
next
  case (Main_proceeds v)
  with assms show ?thesis
    by (auto simp: main_proceeds_def suffix_ConsI split: list.splits main_action.splits if_splits)
qed (use assms worker_step_main(1) [OF assms] in auto)

lemma step_keeps_main_on_program:
  assumes "step c e s = Some s'" and "main_on_program c s"
  shows "main_on_program c s'"
  using step_main_suffix [OF assms(1)] assms(2)
  by (auto simp: main_on_program_def intro: suffix_order.trans)

lemma returned_stays:
  assumes "step c e s = Some s'" and "load_thread s w = Load_returned"
  shows "load_thread s' w = Load_returned"
  using assms
  by (cases e;
      auto simp: main_distributes_def main_proceeds_def load_pops_work_def load_pops_buffer_def
        load_pushes_eval_def eval_pops_def eval_releases_def Let_def
        split: list.splits main_action.splits option.splits if_splits load_pc.splits
          eval_pc.splits)

lemma step_keeps_joined_loaders_returned:
  assumes st: "step c e s = Some s'" and inv: "joined_loaders_returned c s"
  shows "joined_loaders_returned c s'"
  unfolding joined_loaders_returned_def
proof (intro allI impI)
  fix w assume w: "0 \<le> w \<and> w < LOAD_WORKERS_PER_NODE c \<and> Join_load w \<notin> set (main_thread s')"
  show "load_thread s' w = Load_returned"
  proof (cases "Join_load w \<in> set (main_thread s)")
    case False
    with inv w have "load_thread s w = Load_returned"
      by (simp add: joined_loaders_returned_def)
    with st show ?thesis by (rule returned_stays)
  next
    case True
    with w have changed: "main_thread s' \<noteq> main_thread s" by auto
    then obtain v where e: "e = Main_proceeds v"
      using worker_step_main(1) [OF st] st
      by (cases e) (auto simp: main_distributes_def split: list.splits if_splits)
    from st True w have "load_thread s w = Load_returned"
      by (auto simp: e main_proceeds_def split: list.splits main_action.splits if_splits)
    with st show ?thesis by (rule returned_stays)
  qed
qed

lemma step_keeps_load_sentinels_after_work:
  assumes st: "step c e s = Some s'"
    and prog: "main_on_program c s"
    and inv: "load_sentinels_after_work c s"
  shows "load_sentinels_after_work c s'"
proof -
  from inv obtain work n where
    h: "load_work_pushed s = work @ replicate n \<lparr>LoadWorkEntry.work_item_index = - 1\<rparr>"
    and nw: "\<not> list_ex is_load_sentinel work"
    and cnt: "n + count_list (main_thread s) Push_load_sentinel =
              nat (LOAD_WORKERS_PER_NODE c)"
    and d: "Distribute_work \<in> set (main_thread s) \<longrightarrow> n = 0"
    unfolding load_sentinels_after_work_def by blast
  show ?thesis
  proof (cases e)
    case (Main_distributes k)
    with st obtain rest where
      m: "main_thread s = Distribute_work # rest" and k: "k \<noteq> - 1" and
      m': "main_thread s' = main_thread s" and
      h': "load_work_pushed s' = load_work_pushed s @ [\<lparr>LoadWorkEntry.work_item_index = k\<rparr>]"
      by (auto simp: main_distributes_def split: list.splits if_splits)
    from m d have n: "n = 0" by simp
    have "load_work_pushed s' =
            (work @ [\<lparr>LoadWorkEntry.work_item_index = k\<rparr>]) @
            replicate 0 \<lparr>LoadWorkEntry.work_item_index = - 1\<rparr>"
      by (simp add: h' h n)
    moreover have "\<not> list_ex is_load_sentinel (work @ [\<lparr>LoadWorkEntry.work_item_index = k\<rparr>])"
      using nw k by (simp add: is_load_sentinel_def)
    moreover have "0 + count_list (main_thread s') Push_load_sentinel =
                   nat (LOAD_WORKERS_PER_NODE c)"
      using cnt n by (simp add: m')
    ultimately show ?thesis
      unfolding load_sentinels_after_work_def by blast
  next
    case (Main_proceeds v)
    from st Main_proceeds obtain a rest where
      m: "main_thread s = a # rest" and m': "main_thread s' = rest"
      by (auto simp: main_proceeds_def split: list.splits main_action.splits if_splits)
    have nd: "Distribute_work \<notin> set rest"
      using prog m head_after_distribution [of a rest c] by (simp add: main_on_program_def)
    show ?thesis
    proof (cases "a = Push_load_sentinel")
      case True
      with st Main_proceeds m have
        h': "load_work_pushed s' =
               load_work_pushed s @ [\<lparr>LoadWorkEntry.work_item_index = - 1\<rparr>]"
        by (auto simp: main_proceeds_def)
      have "load_work_pushed s' =
              work @ replicate (Suc n) \<lparr>LoadWorkEntry.work_item_index = - 1\<rparr>"
        by (simp add: h' h replicate_append_same)
      moreover have "Suc n + count_list (main_thread s') Push_load_sentinel =
                     nat (LOAD_WORKERS_PER_NODE c)"
        using cnt True by (simp add: m m')
      ultimately show ?thesis
        unfolding load_sentinels_after_work_def using nw nd m' by blast
    next
      case False
      with st Main_proceeds m have h': "load_work_pushed s' = load_work_pushed s"
        by (auto simp: main_proceeds_def split: main_action.splits if_splits)
      have "n + count_list (main_thread s') Push_load_sentinel =
            nat (LOAD_WORKERS_PER_NODE c)"
        using cnt False by (simp add: m m')
      then show ?thesis
        unfolding load_sentinels_after_work_def using nw nd m' h h' by metis
    qed
  next
    case (Load_pops_work w)
    with worker_step_main [OF st] inv show ?thesis
      by (simp add: load_sentinels_after_work_def)
  next
    case (Load_pops_buffer w)
    with worker_step_main [OF st] inv show ?thesis
      by (simp add: load_sentinels_after_work_def)
  next
    case (Load_pushes_eval w)
    with worker_step_main [OF st] inv show ?thesis
      by (simp add: load_sentinels_after_work_def)
  next
    case (Eval_pops g)
    with worker_step_main [OF st] inv show ?thesis
      by (simp add: load_sentinels_after_work_def)
  next
    case (Eval_releases g)
    with worker_step_main [OF st] inv show ?thesis
      by (simp add: load_sentinels_after_work_def)
  qed
qed

lemma step_keeps_one_eval_sentinel:
  assumes st: "step c e s = Some s'"
    and hold: "loaders_hold_work s"
    and inv: "one_eval_sentinel c s"
  shows "one_eval_sentinel c s'"
proof (cases e)
  case (Main_distributes k)
  with st inv show ?thesis
    by (auto simp: main_distributes_def one_eval_sentinel_def split: list.splits if_splits)
next
  case (Main_proceeds v)
  with st inv show ?thesis
    by (auto simp: main_proceeds_def one_eval_sentinel_def is_eval_sentinel_def
        split: list.splits main_action.splits if_splits)
next
  case (Load_pops_work w)
  with st inv show ?thesis
    by (auto simp: load_pops_work_def one_eval_sentinel_def split: option.splits if_splits)
next
  case (Load_pops_buffer w)
  with st inv show ?thesis
    by (auto simp: load_pops_buffer_def one_eval_sentinel_def
        split: option.splits if_splits load_pc.splits)
next
  case (Load_pushes_eval w)
  from st Load_pushes_eval obtain e0 b where
    d: "load_thread s w = Decoding e0 b" and
    m': "main_thread s' = main_thread s" and
    h': "eval_work_pushed s' = (eval_work_pushed s)
           (gpu_device_id b := eval_work_pushed s (gpu_device_id b) @
              [\<lparr>EvalWorkEntry.work_item_index = LoadWorkEntry.work_item_index e0,
                buffer_index = LoadBufferEntry.buffer_index b\<rparr>])"
    by (auto simp: load_pushes_eval_def Let_def split: if_splits load_pc.splits)
  have "LoadWorkEntry.work_item_index e0 \<noteq> - 1"
    using loaders_hold_workD [OF hold, of w] d by (simp add: holds_work_simps)
  with inv show ?thesis
    by (auto simp: one_eval_sentinel_def m' h' is_eval_sentinel_def)
next
  case (Eval_pops g)
  with st inv show ?thesis
    by (auto simp: eval_pops_def one_eval_sentinel_def split: option.splits if_splits)
next
  case (Eval_releases g)
  with st inv show ?thesis
    by (auto simp: eval_releases_def one_eval_sentinel_def split: eval_pc.splits if_splits)
qed

lemma step_keeps_shutdown_invariant:
  assumes "step c e s = Some s'" and "shutdown_invariant c s"
  shows "shutdown_invariant c s'"
  using assms
  by (simp add: shutdown_invariant_def step_keeps_loaders_hold_work
      step_keeps_main_on_program step_keeps_joined_loaders_returned
      step_keeps_load_sentinels_after_work step_keeps_one_eval_sentinel)

lemma initial_shutdown_invariant:
  "shutdown_invariant c (initial c)"
proof -
  have "main_on_program c (initial c)"
    by (simp add: main_on_program_def initial_def)
  moreover have "joined_loaders_returned c (initial c)"
    by (auto simp: joined_loaders_returned_def initial_def main_program_def)
  moreover have "load_sentinels_after_work c (initial c)"
    unfolding load_sentinels_after_work_def
    by (rule exI [of _ "[]"], rule exI [of _ 0])
      (simp add: initial_def count_load_sentinel_pushes)
  moreover have "one_eval_sentinel c (initial c)"
    by (simp add: one_eval_sentinel_def initial_def count_eval_sentinel_pushes)
  ultimately show ?thesis
    by (simp add: shutdown_invariant_def initial_loaders_hold_work)
qed

lemma run_keeps_shutdown_invariant:
  "run_from c s es = Some s' \<Longrightarrow> shutdown_invariant c s \<Longrightarrow> shutdown_invariant c s'"
proof (induction es arbitrary: s)
  case Nil
  then show ?case by simp
next
  case (Cons e es)
  from Cons.prems(1) obtain s1 where
    s1: "step c e s = Some s1" and rest: "run_from c s1 es = Some s'"
    by (auto split: option.splits)
  show ?case
    using Cons.IH [OF rest step_keeps_shutdown_invariant [OF s1 Cons.prems(2)]] .
qed

lemma run_node_shutdown_invariant:
  assumes "run_node c es = Some s"
  shows "shutdown_invariant c s"
  using run_keeps_shutdown_invariant [OF assms [unfolded run_node_def]
      initial_shutdown_invariant] .

text \<open>
  Claim C8.  In every state of every run with \<^verbatim>\<open>LOAD_WORKERS_PER_NODE \<ge> 0\<close>:
  \<^item> what has been pushed into \<^verbatim>\<open>load_work\<close> is work entries followed by sentinels; no
    sentinel is pushed while work is distributed; the number of sentinels is
    \<^verbatim>\<open>LOAD_WORKERS_PER_NODE\<close> less the pushes \<^verbatim>\<open>main\<close> still has to do, hence exactly
    \<^verbatim>\<open>LOAD_WORKERS_PER_NODE\<close> when \<^verbatim>\<open>main\<close> is done;
  \<^item> every \<^verbatim>\<open>eval_work[g]\<close> has received no sentinel while its push is ahead of \<^verbatim>\<open>main\<close> and
    exactly one afterwards, and when it has received one, every load worker has returned
    and has been joined;
  \<^item> a worker that has returned takes no further step, and a waiting worker that pops a
    sentinel returns.
\<close>

theorem sentinels_shut_the_workers_down:
  assumes "run_node c es = Some s" and "0 \<le> LOAD_WORKERS_PER_NODE c"
  shows
    "(\<exists>work n.
        load_work_pushed s = work @ replicate n \<lparr>LoadWorkEntry.work_item_index = - 1\<rparr> \<and>
        \<not> list_ex is_load_sentinel work \<and>
        int n = LOAD_WORKERS_PER_NODE c - int (count_list (main_thread s) Push_load_sentinel) \<and>
        (Distribute_work \<in> set (main_thread s) \<longrightarrow> n = 0) \<and>
        (main_thread s = [] \<longrightarrow> int n = LOAD_WORKERS_PER_NODE c)) \<and>
     (\<forall>g \<in> set [0..GPUS_PER_NODE c - 1].
        length (filter is_eval_sentinel (eval_work_pushed s g)) =
          (if Push_eval_sentinel g \<in> set (main_thread s) then 0 else 1) \<and>
        (list_ex is_eval_sentinel (eval_work_pushed s g) \<longrightarrow>
           (\<forall>w \<in> set [0..LOAD_WORKERS_PER_NODE c - 1].
              load_thread s w = Load_returned \<and> Join_load w \<notin> set (main_thread s)))) \<and>
     (\<forall>w. load_thread s w = Load_returned \<longrightarrow>
        step c (Load_pops_work w) s = None \<and> step c (Load_pops_buffer w) s = None \<and>
        step c (Load_pushes_eval w) s = None) \<and>
     (\<forall>g. eval_thread s g = Eval_returned \<longrightarrow>
        step c (Eval_pops g) s = None \<and> step c (Eval_releases g) s = None) \<and>
     (\<forall>w rest.
        0 \<le> w \<and> w < LOAD_WORKERS_PER_NODE c \<and> load_thread s w = Wait_work \<and>
        load_work s = \<lparr>LoadWorkEntry.work_item_index = - 1\<rparr> # rest \<longrightarrow>
        map_option (\<lambda>s'. (load_thread s' w, load_work s')) (step c (Load_pops_work w) s) =
          Some (Load_returned, rest)) \<and>
     (\<forall>g v rest.
        0 \<le> g \<and> g < GPUS_PER_NODE c \<and> eval_thread s g = Wait_eval \<and>
        eval_work s g = \<lparr>EvalWorkEntry.work_item_index = - 1, buffer_index = v\<rparr> # rest \<longrightarrow>
        map_option (\<lambda>s'. (eval_thread s' g, eval_work s' g)) (step c (Eval_pops g) s) =
          Some (Eval_returned, rest))"
proof -
  note inv = run_node_shutdown_invariant [OF assms(1), unfolded shutdown_invariant_def]
  from inv obtain work n where
    h: "load_work_pushed s = work @ replicate n \<lparr>LoadWorkEntry.work_item_index = - 1\<rparr>"
    and nw: "\<not> list_ex is_load_sentinel work"
    and cnt: "n + count_list (main_thread s) Push_load_sentinel =
              nat (LOAD_WORKERS_PER_NODE c)"
    and d: "Distribute_work \<in> set (main_thread s) \<longrightarrow> n = 0"
    unfolding load_sentinels_after_work_def by blast
  have n: "int n = LOAD_WORKERS_PER_NODE c - int (count_list (main_thread s) Push_load_sentinel)"
    using cnt assms(2) by linarith
  have fin: "main_thread s = [] \<longrightarrow> int n = LOAD_WORKERS_PER_NODE c"
    using n by simp
  have load: "\<exists>work n.
        load_work_pushed s = work @ replicate n \<lparr>LoadWorkEntry.work_item_index = - 1\<rparr> \<and>
        \<not> list_ex is_load_sentinel work \<and>
        int n = LOAD_WORKERS_PER_NODE c - int (count_list (main_thread s) Push_load_sentinel) \<and>
        (Distribute_work \<in> set (main_thread s) \<longrightarrow> n = 0) \<and>
        (main_thread s = [] \<longrightarrow> int n = LOAD_WORKERS_PER_NODE c)"
    using h nw n d fin by blast
  have eval: "length (filter is_eval_sentinel (eval_work_pushed s g)) =
          (if Push_eval_sentinel g \<in> set (main_thread s) then 0 else 1) \<and>
        (list_ex is_eval_sentinel (eval_work_pushed s g) \<longrightarrow>
           (\<forall>w \<in> set [0..LOAD_WORKERS_PER_NODE c - 1].
              load_thread s w = Load_returned \<and> Join_load w \<notin> set (main_thread s)))"
    if "g \<in> set [0..GPUS_PER_NODE c - 1]" for g
  proof -
    from that have g: "0 \<le> g" "g < GPUS_PER_NODE c" by simp_all
    with inv have one: "length (filter is_eval_sentinel (eval_work_pushed s g)) +
        count_list (main_thread s) (Push_eval_sentinel g) = 1"
      by (simp add: one_eval_sentinel_def)
    have c0: "(count_list (main_thread s) (Push_eval_sentinel g) = 0) =
              (Push_eval_sentinel g \<notin> set (main_thread s))"
      by (rule count_list_0_iff)
    have first: "length (filter is_eval_sentinel (eval_work_pushed s g)) =
          (if Push_eval_sentinel g \<in> set (main_thread s) then 0 else 1)"
    proof (cases "Push_eval_sentinel g \<in> set (main_thread s)")
      case True
      with c0 have "0 < count_list (main_thread s) (Push_eval_sentinel g)" by simp
      with one have "length (filter is_eval_sentinel (eval_work_pushed s g)) = 0" by linarith
      with True show ?thesis by (simp only: if_True)
    next
      case False
      with c0 have "count_list (main_thread s) (Push_eval_sentinel g) = 0" by simp
      with one have "length (filter is_eval_sentinel (eval_work_pushed s g)) = 1" by linarith
      with False show ?thesis by (simp only: if_False)
    qed
    have second: "load_thread s w = Load_returned \<and> Join_load w \<notin> set (main_thread s)"
      if ex: "list_ex is_eval_sentinel (eval_work_pushed s g)"
        and w: "w \<in> set [0..LOAD_WORKERS_PER_NODE c - 1]" for w
    proof -
      from ex have "filter is_eval_sentinel (eval_work_pushed s g) \<noteq> []"
        by (simp add: filter_empty_conv list_ex_iff)
      then have "0 < length (filter is_eval_sentinel (eval_work_pushed s g))" by simp
      with first have "Push_eval_sentinel g \<notin> set (main_thread s)" by (auto split: if_splits)
      with inv g have j: "Join_load w \<notin> set (main_thread s)"
        using eval_sentinel_after_joins [of "main_thread s" c g w]
        by (simp add: main_on_program_def)
      with inv w show ?thesis by (simp add: joined_loaders_returned_def)
    qed
    show ?thesis using first second by blast
  qed
  have stop_load: "step c (Load_pops_work w) s = None \<and> step c (Load_pops_buffer w) s = None \<and>
        step c (Load_pushes_eval w) s = None" if "load_thread s w = Load_returned" for w
    using that by (simp add: load_pops_work_def load_pops_buffer_def load_pushes_eval_def)
  have stop_eval: "step c (Eval_pops g) s = None \<and> step c (Eval_releases g) s = None"
    if "eval_thread s g = Eval_returned" for g
    using that by (simp add: eval_pops_def eval_releases_def)
  have ret_load: "map_option (\<lambda>s'. (load_thread s' w, load_work s')) (step c (Load_pops_work w) s) =
          Some (Load_returned, rest)"
    if "0 \<le> w \<and> w < LOAD_WORKERS_PER_NODE c \<and> load_thread s w = Wait_work \<and>
        load_work s = \<lparr>LoadWorkEntry.work_item_index = - 1\<rparr> # rest" for w rest
    using that by (simp add: load_pops_work_def pop_def)
  have ret_eval: "map_option (\<lambda>s'. (eval_thread s' g, eval_work s' g)) (step c (Eval_pops g) s) =
          Some (Eval_returned, rest)"
    if "0 \<le> g \<and> g < GPUS_PER_NODE c \<and> eval_thread s g = Wait_eval \<and>
        eval_work s g = \<lparr>EvalWorkEntry.work_item_index = - 1, buffer_index = v\<rparr> # rest"
    for g v rest
    using that by (simp add: eval_pops_def pop_def)
  show ?thesis
    using load eval stop_load stop_eval ret_load ret_eval by blast
qed

theorem sentinels_shut_the_workers_down_witness:
  "run_node tiny_config complete_schedule = Some complete_state \<and>
   0 \<le> LOAD_WORKERS_PER_NODE tiny_config \<and>
   length (filter is_eval_sentinel (eval_work_pushed complete_state 0)) = 1 \<and>
   load_thread complete_state 0 = Load_returned \<and>
   step tiny_config (Load_pops_work 0) complete_state = None \<and>
   step tiny_config (Eval_pops 0) complete_state = None"
  using sentinels_shut_the_workers_down [OF complete_schedule_state]
  by (simp add: complete_schedule_state tiny_config_fields complete_state_def
      is_eval_sentinel_def)

section \<open>Every work item given to a node is evaluated once\<close>

subsection \<open>Work items are conserved by every step\<close>

lemma loader_work_update:
  assumes "0 \<le> w" and "w < L"
  shows "(\<Sum>x\<leftarrow>[0..L - 1]. loader_work ((lt(w := pc)) x)) + loader_work (lt w) =
         (\<Sum>x\<leftarrow>[0..L - 1]. loader_work (lt x)) + loader_work pc"
  using assms by (intro sum_list_fun_upd [where F = "\<lambda>x. loader_work"]) simp_all

lemma queued_work_update:
  assumes "0 \<le> g" and "g < G"
  shows "(\<Sum>x\<leftarrow>[0..G - 1]. queued_work ((ew(g := q)) x)) + queued_work (ew g) =
         (\<Sum>x\<leftarrow>[0..G - 1]. queued_work (ew x)) + queued_work q"
  using assms by (intro sum_list_fun_upd [where F = "\<lambda>x. queued_work"]) simp_all

lemma evaluator_work_update:
  assumes "0 \<le> g" and "g < G"
  shows "(\<Sum>x\<leftarrow>[0..G - 1]. evaluator_work ((et(g := pc)) x)) + evaluator_work (et g) =
         (\<Sum>x\<leftarrow>[0..G - 1]. evaluator_work (et x)) + evaluator_work pc"
  using assms by (intro sum_list_fun_upd [where F = "\<lambda>x. evaluator_work"]) simp_all

lemma loader_work_update_same:
  assumes "loader_work pc = loader_work (lt w)"
  shows "(\<Sum>x\<leftarrow>xs. loader_work ((lt(w := pc)) x)) = (\<Sum>x\<leftarrow>xs. loader_work (lt x))"
  using assms by (rule sum_list_fun_upd_same [where F = "\<lambda>x. loader_work"])

lemma queued_work_update_same:
  assumes "queued_work q = queued_work (ew g)"
  shows "(\<Sum>x\<leftarrow>xs. queued_work ((ew(g := q)) x)) = (\<Sum>x\<leftarrow>xs. queued_work (ew x))"
  using assms by (rule sum_list_fun_upd_same [where F = "\<lambda>x. queued_work"])

lemma work_main_distributes:
  assumes "main_distributes k s = Some s'"
  shows "work_in_node c s' = work_in_node c s + {#k#}"
    and "work_of (load_work_pushed s') = work_of (load_work_pushed s) + {#k#}"
  using assms
  by (auto simp: main_distributes_def work_in_node_def work_of_def push_def is_load_sentinel_def
      split: list.splits if_splits)

lemma work_main_proceeds:
  assumes "main_proceeds v s = Some s'"
  shows "work_in_node c s' = work_in_node c s"
    and "work_of (load_work_pushed s') = work_of (load_work_pushed s)"
proof -
  have q: "queued_work (q @ [\<lparr>EvalWorkEntry.work_item_index = - 1, buffer_index = v\<rparr>]) =
           queued_work q" for q
    by (simp add: queued_work_def carries_buffer_def)
  from assms show "work_in_node c s' = work_in_node c s"
    by (auto simp: main_proceeds_def work_in_node_def work_of_def push_def is_load_sentinel_def
        queued_work_update_same q
        simp del: fun_upd_apply split: list.splits main_action.splits if_splits)
  from assms show "work_of (load_work_pushed s') = work_of (load_work_pushed s)"
    by (auto simp: main_proceeds_def work_of_def is_load_sentinel_def
        split: list.splits main_action.splits if_splits)
qed

lemma worker_step_history:
  assumes "step c e s = Some s'"
    and "\<And>k. e \<noteq> Main_distributes k" and "\<And>v. e \<noteq> Main_proceeds v"
  shows "work_of (load_work_pushed s') = work_of (load_work_pushed s)"
  using worker_step_main(2) [OF assms] by simp

lemma work_load_pops_work:
  assumes "load_pops_work c w s = Some s'"
  shows "work_in_node c s' = work_in_node c s"
proof -
  from assms obtain e rest where
    w: "0 \<le> w" "w < LOAD_WORKERS_PER_NODE c" and
    g: "load_thread s w = Wait_work" and
    q: "load_work s = e # rest" and
    s': "s' = s\<lparr>load_work := rest,
                 load_thread := (load_thread s)
                   (w := if LoadWorkEntry.work_item_index e = - 1
                         then Load_returned else Wait_buffer e)\<rparr>"
    by (auto simp: load_pops_work_def pop_Some split: if_splits option.splits)
  let ?pc = "if LoadWorkEntry.work_item_index e = - 1 then Load_returned else Wait_buffer e"
  have a: "work_of (e # rest) = loader_work ?pc + work_of rest"
    by (simp add: work_of_def loader_work_def is_load_sentinel_def)
  have b: "(\<Sum>x\<leftarrow>[0..LOAD_WORKERS_PER_NODE c - 1].
              loader_work (((load_thread s)(w := ?pc)) x)) =
           (\<Sum>x\<leftarrow>[0..LOAD_WORKERS_PER_NODE c - 1]. loader_work (load_thread s x)) +
           loader_work ?pc"
    using loader_work_update [OF w, of "load_thread s" ?pc]
    by (simp add: g loader_work_def del: fun_upd_apply)
  show ?thesis
    by (simp add: s' work_in_node_def q a b del: fun_upd_apply)
qed

lemma work_load_pops_buffer:
  assumes "load_pops_buffer c w s = Some s'"
  shows "work_in_node c s' = work_in_node c s"
proof -
  from assms obtain e b rest where
    g: "load_thread s w = Wait_buffer e" and
    s': "s' = s\<lparr>empty_load_buffers := rest,
                 load_thread := (load_thread s)(w := Decoding e b)\<rparr>"
    by (auto simp: load_pops_buffer_def pop_Some split: if_splits option.splits load_pc.splits)
  have "loader_work (Decoding e b) = loader_work (load_thread s w)"
    by (simp add: g loader_work_def)
  then show ?thesis
    by (simp add: s' work_in_node_def loader_work_update_same del: fun_upd_apply)
qed

lemma work_load_pushes_eval:
  assumes st: "load_pushes_eval c w s = Some s'"
    and hold: "loaders_hold_work s"
    and pool: "buffer_identities c s = mset (buffer_pool c)"
  shows "work_in_node c s' = work_in_node c s"
proof -
  from st obtain e b where
    w: "0 \<le> w" "w < LOAD_WORKERS_PER_NODE c" and
    d: "load_thread s w = Decoding e b" and
    s': "s' = s\<lparr>eval_work := (eval_work s)
                   (gpu_device_id b :=
                      push \<lparr>EvalWorkEntry.work_item_index = LoadWorkEntry.work_item_index e,
                            buffer_index = LoadBufferEntry.buffer_index b\<rparr>
                        (eval_work s (gpu_device_id b))),
                 eval_work_pushed := (eval_work_pushed s)
                   (gpu_device_id b := eval_work_pushed s (gpu_device_id b) @
                      [\<lparr>EvalWorkEntry.work_item_index = LoadWorkEntry.work_item_index e,
                        buffer_index = LoadBufferEntry.buffer_index b\<rparr>]),
                 load_thread := (load_thread s)(w := Wait_work)\<rparr>"
    by (auto simp: load_pushes_eval_def Let_def split: if_splits load_pc.splits)
  have ne: "LoadWorkEntry.work_item_index e \<noteq> - 1"
    using loaders_hold_workD [OF hold, of w] d by (simp add: holds_work_simps)
  have g: "0 \<le> gpu_device_id b" "gpu_device_id b < GPUS_PER_NODE c"
    using decoding_buffer_unique(3) [OF pool w d] by (simp_all add: in_buffer_pool)
  let ?i = "LoadWorkEntry.work_item_index e"
  let ?e = "\<lparr>EvalWorkEntry.work_item_index = ?i,
             buffer_index = LoadBufferEntry.buffer_index b\<rparr>"
  have L: "(\<Sum>x\<leftarrow>[0..LOAD_WORKERS_PER_NODE c - 1]. loader_work (load_thread s x)) =
        (\<Sum>x\<leftarrow>[0..LOAD_WORKERS_PER_NODE c - 1].
           loader_work (((load_thread s)(w := Wait_work)) x)) + {#?i#}"
    using loader_work_update [OF w, of "load_thread s" Wait_work]
    by (simp add: d loader_work_def del: fun_upd_apply)
  have qp: "queued_work (push ?e (eval_work s (gpu_device_id b))) =
            queued_work (eval_work s (gpu_device_id b)) + {#?i#}"
    using ne by (simp add: queued_work_def push_def carries_buffer_def)
  have Q: "(\<Sum>x\<leftarrow>[0..GPUS_PER_NODE c - 1].
             queued_work (((eval_work s)
               (gpu_device_id b := push ?e (eval_work s (gpu_device_id b)))) x)) =
           (\<Sum>x\<leftarrow>[0..GPUS_PER_NODE c - 1]. queued_work (eval_work s x)) + {#?i#}"
  proof -
    have "(\<Sum>x\<leftarrow>[0..GPUS_PER_NODE c - 1].
             queued_work (((eval_work s)
               (gpu_device_id b := push ?e (eval_work s (gpu_device_id b)))) x)) +
            queued_work (eval_work s (gpu_device_id b)) =
          (\<Sum>x\<leftarrow>[0..GPUS_PER_NODE c - 1]. queued_work (eval_work s x)) +
            (queued_work (eval_work s (gpu_device_id b)) + {#?i#})"
      using queued_work_update [OF g, of "eval_work s" "push ?e (eval_work s (gpu_device_id b))"]
      by (simp only: qp)
    then show ?thesis by simp
  qed
  show ?thesis
    by (simp add: s' work_in_node_def L Q del: fun_upd_apply)
qed

lemma work_eval_pops:
  assumes "eval_pops c g s = Some s'"
  shows "work_in_node c s' = work_in_node c s"
proof -
  from assms obtain e rest where
    g: "0 \<le> g" "g < GPUS_PER_NODE c" and
    p: "eval_thread s g = Wait_eval" and
    q: "eval_work s g = e # rest" and
    s': "s' = s\<lparr>eval_work := (eval_work s)(g := rest),
                 eval_thread := (eval_thread s)
                   (g := if EvalWorkEntry.work_item_index e = - 1
                         then Eval_returned else Processing e)\<rparr>"
    by (auto simp: eval_pops_def pop_Some split: if_splits option.splits)
  let ?pc = "if EvalWorkEntry.work_item_index e = - 1 then Eval_returned else Processing e"
  have qc: "queued_work (e # rest) = evaluator_work ?pc + queued_work rest"
    by (simp add: queued_work_def evaluator_work_def carries_buffer_def)
  have "(\<Sum>x\<leftarrow>[0..GPUS_PER_NODE c - 1]. queued_work (((eval_work s)(g := rest)) x)) +
          (evaluator_work ?pc + queued_work rest) =
        (\<Sum>x\<leftarrow>[0..GPUS_PER_NODE c - 1]. queued_work (eval_work s x)) + queued_work rest"
    using queued_work_update [OF g, of "eval_work s" rest] by (simp only: q qc)
  then have Q: "(\<Sum>x\<leftarrow>[0..GPUS_PER_NODE c - 1]. queued_work (eval_work s x)) =
        (\<Sum>x\<leftarrow>[0..GPUS_PER_NODE c - 1]. queued_work (((eval_work s)(g := rest)) x)) +
        evaluator_work ?pc"
    by (simp only: add.assoc [symmetric] add_right_cancel)
  have E: "(\<Sum>x\<leftarrow>[0..GPUS_PER_NODE c - 1].
           evaluator_work (((eval_thread s)(g := ?pc)) x)) =
        (\<Sum>x\<leftarrow>[0..GPUS_PER_NODE c - 1]. evaluator_work (eval_thread s x)) +
        evaluator_work ?pc"
    using evaluator_work_update [OF g, of "eval_thread s" ?pc]
    by (simp add: p evaluator_work_def del: fun_upd_apply)
  show ?thesis
    by (simp add: s' work_in_node_def Q E del: fun_upd_apply)
qed

lemma work_eval_releases:
  assumes "eval_releases c g s = Some s'"
  shows "work_in_node c s' = work_in_node c s"
proof -
  from assms obtain e where
    g: "0 \<le> g" "g < GPUS_PER_NODE c" and
    p: "eval_thread s g = Processing e" and
    s': "s' = s\<lparr>empty_load_buffers := push (identity_of g e) (empty_load_buffers s),
                 eval_thread := (eval_thread s)(g := Wait_eval),
                 evaluated := evaluated s @
                   [(g, EvalWorkEntry.work_item_index e,
                     EvalWorkEntry.buffer_index e)]\<rparr>"
    by (auto simp: eval_releases_def identity_of_def split: if_splits eval_pc.splits)
  have "(\<Sum>x\<leftarrow>[0..GPUS_PER_NODE c - 1]. evaluator_work (eval_thread s x)) =
        (\<Sum>x\<leftarrow>[0..GPUS_PER_NODE c - 1].
           evaluator_work (((eval_thread s)(g := Wait_eval)) x)) +
        {#EvalWorkEntry.work_item_index e#}"
    using evaluator_work_update [OF g, of "eval_thread s" Wait_eval]
    by (simp add: p evaluator_work_def del: fun_upd_apply)
  then show ?thesis
    by (simp add: s' work_in_node_def del: fun_upd_apply)
qed

lemma step_keeps_work_conserved:
  assumes st: "step c e s = Some s'"
    and hold: "loaders_hold_work s"
    and pool: "buffer_identities c s = mset (buffer_pool c)"
    and inv: "work_conserved c s"
  shows "work_conserved c s'"
proof (cases e)
  case (Main_distributes k)
  with st inv show ?thesis
    by (simp add: work_conserved_def work_main_distributes)
next
  case (Main_proceeds v)
  with st inv show ?thesis
    by (simp add: work_conserved_def work_main_proceeds)
next
  case (Load_pops_work w)
  with st inv worker_step_history [OF st] show ?thesis
    by (simp add: work_conserved_def work_load_pops_work)
next
  case (Load_pops_buffer w)
  with st inv worker_step_history [OF st] show ?thesis
    by (simp add: work_conserved_def work_load_pops_buffer)
next
  case (Load_pushes_eval w)
  with st inv hold pool worker_step_history [OF st] show ?thesis
    by (simp add: work_conserved_def work_load_pushes_eval)
next
  case (Eval_pops g)
  with st inv worker_step_history [OF st] show ?thesis
    by (simp add: work_conserved_def work_eval_pops)
next
  case (Eval_releases g)
  with st inv worker_step_history [OF st] show ?thesis
    by (simp add: work_conserved_def work_eval_releases)
qed

lemma initial_work_conserved: "work_conserved c (initial c)"
  by (simp add: work_conserved_def work_in_node_def initial_def work_of_def loader_work_def
      queued_work_def evaluator_work_def)

lemma suffix_snoc_both: "suffix q h \<Longrightarrow> suffix (q @ [x]) (h @ [x])"
  by (auto simp: suffix_def)

lemma step_keeps_load_queue_fifo:
  assumes "step c e s = Some s'" and "load_queue_fifo s"
  shows "load_queue_fifo s'"
  using assms
  by (cases e;
      auto simp: load_queue_fifo_def main_distributes_def main_proceeds_def load_pops_work_def
        load_pops_buffer_def load_pushes_eval_def eval_pops_def eval_releases_def Let_def
        push_def pop_Some suffix_snoc_both
        split: list.splits main_action.splits option.splits if_splits load_pc.splits
          eval_pc.splits
        dest: suffix_ConsD)

lemma step_keeps_eval_queue_fifo:
  assumes st: "step c e s = Some s'" and inv: "eval_queue_fifo s"
  shows "eval_queue_fifo s'"
proof (cases e)
  case (Eval_pops g)
  with st obtain x rest where
    q: "eval_work s g = x # rest" and
    ew: "eval_work s' = (eval_work s)(g := rest)" and
    h: "eval_work_pushed s' = eval_work_pushed s"
    by (auto simp: eval_pops_def pop_Some split: option.splits if_splits)
  from inv have "suffix (x # rest) (eval_work_pushed s g)"
    by (simp add: eval_queue_fifo_def flip: q)
  then have "suffix rest (eval_work_pushed s g)" by (rule suffix_ConsD)
  with inv show ?thesis by (simp add: eval_queue_fifo_def ew h)
qed (use assms in \<open>auto simp: eval_queue_fifo_def main_distributes_def main_proceeds_def
        load_pops_work_def load_pops_buffer_def load_pushes_eval_def eval_releases_def Let_def
        push_def pop_Some suffix_snoc_both
        split: list.splits main_action.splits option.splits if_splits load_pc.splits
          eval_pc.splits\<close>)

lemma suffix_of_sentinels:
  assumes "suffix (e # rest) (work @ replicate n x)"
    and "\<not> list_ex P work" and "P e"
  shows "suffix (e # rest) (replicate n x)"
proof -
  from assms(1) consider "suffix (e # rest) (replicate n x)"
    | ys where "e # rest = ys @ replicate n x" "suffix ys work"
    by (auto simp: suffix_append)
  then show ?thesis
  proof cases
    case 1
    then show ?thesis .
  next
    case 2
    show ?thesis
    proof (cases ys)
      case Nil
      with 2 show ?thesis by simp
    next
      case (Cons y ys')
      with 2(1) have "y = e" by simp
      with Cons have "e \<in> set ys" by simp
      with 2(2) have "e \<in> set work" using set_mono_suffix by blast
      with assms(2,3) show ?thesis by (auto simp: list_ex_iff)
    qed
  qed
qed

lemma load_returned_iff:
  assumes "step c e s = Some s'" and "load_thread s' w = Load_returned"
    and "load_thread s w \<noteq> Load_returned"
  shows "\<exists>rest. e = Load_pops_work w \<and> load_work s = \<lparr>LoadWorkEntry.work_item_index = - 1\<rparr> # rest \<and>
           load_work s' = rest \<and> main_thread s' = main_thread s"
  using assms
  by (cases e;
      auto simp: main_distributes_def main_proceeds_def load_pops_work_def
        load_pops_buffer_def load_pushes_eval_def eval_pops_def eval_releases_def Let_def
        pop_Some
        split: list.splits main_action.splits option.splits if_splits load_pc.splits
          eval_pc.splits)

lemma sentinel_queue_stays:
  assumes "step c e s = Some s'"
    and "Distribute_work \<notin> set (main_thread s)"
    and "list_all is_load_sentinel (load_work s)"
  shows "list_all is_load_sentinel (load_work s')"
  using assms
  by (cases e;
      auto simp: main_distributes_def main_proceeds_def load_pops_work_def
        load_pops_buffer_def load_pushes_eval_def eval_pops_def eval_releases_def Let_def
        pop_Some push_def is_load_sentinel_def
        split: list.splits main_action.splits option.splits if_splits load_pc.splits
          eval_pc.splits)

lemma step_keeps_loaders_drained:
  assumes st: "step c e s = Some s'"
    and fifo: "load_queue_fifo s"
    and sent: "load_sentinels_after_work c s"
    and inv: "loaders_drained s"
  shows "loaders_drained s'"
  unfolding loaders_drained_def
proof
  assume "\<exists>w. load_thread s' w = Load_returned"
  then obtain w where w: "load_thread s' w = Load_returned" ..
  show "list_all is_load_sentinel (load_work s') \<and> Distribute_work \<notin> set (main_thread s')"
  proof (cases "load_thread s w = Load_returned")
    case True
    with inv have a: "list_all is_load_sentinel (load_work s)"
      and b: "Distribute_work \<notin> set (main_thread s)"
      by (auto simp: loaders_drained_def)
    have "set (main_thread s') \<subseteq> set (main_thread s)"
      using step_main_suffix [OF st] by (rule set_mono_suffix)
    with b sentinel_queue_stays [OF st b a] show ?thesis by auto
  next
    case False
    from load_returned_iff [OF st w False] obtain rest where
      q: "load_work s = \<lparr>LoadWorkEntry.work_item_index = - 1\<rparr> # rest" and
      q': "load_work s' = rest" and m: "main_thread s' = main_thread s"
      by blast
    from sent obtain work n where
      h: "load_work_pushed s = work @ replicate n \<lparr>LoadWorkEntry.work_item_index = - 1\<rparr>"
      and nw: "\<not> list_ex is_load_sentinel work"
      and d: "Distribute_work \<in> set (main_thread s) \<longrightarrow> n = 0"
      unfolding load_sentinels_after_work_def by blast
    have "suffix (\<lparr>LoadWorkEntry.work_item_index = - 1\<rparr> # rest)
            (work @ replicate n \<lparr>LoadWorkEntry.work_item_index = - 1\<rparr>)"
      using fifo by (simp add: load_queue_fifo_def q h)
    then have sf: "suffix (\<lparr>LoadWorkEntry.work_item_index = - 1\<rparr> # rest)
            (replicate n \<lparr>LoadWorkEntry.work_item_index = - 1\<rparr>)"
      using nw by (rule suffix_of_sentinels) (simp add: is_load_sentinel_def)
    then have "set (\<lparr>LoadWorkEntry.work_item_index = - 1\<rparr> # rest) \<subseteq>
               set (replicate n \<lparr>LoadWorkEntry.work_item_index = - 1\<rparr>)"
      by (rule set_mono_suffix)
    then have all: "list_all is_load_sentinel rest"
      by (auto simp: list_all_iff is_load_sentinel_def)
    from sf have "length (\<lparr>LoadWorkEntry.work_item_index = - 1\<rparr> # rest) \<le>
                  length (replicate n \<lparr>LoadWorkEntry.work_item_index = - 1\<rparr>)"
      by (rule suffix_length_le)
    then have "n \<noteq> 0" by auto
    with d have "Distribute_work \<notin> set (main_thread s)" by blast
    with all show ?thesis by (simp add: q' m)
  qed
qed

lemma eval_returned_stays:
  assumes "step c e s = Some s'" and "eval_thread s g = Eval_returned"
  shows "eval_thread s' g = Eval_returned"
  using assms
  by (cases e;
      auto simp: main_distributes_def main_proceeds_def load_pops_work_def load_pops_buffer_def
        load_pushes_eval_def eval_pops_def eval_releases_def Let_def
        split: list.splits main_action.splits option.splits if_splits load_pc.splits
          eval_pc.splits)

lemma step_keeps_joined_evaluators_returned:
  assumes st: "step c e s = Some s'" and inv: "joined_evaluators_returned c s"
  shows "joined_evaluators_returned c s'"
  unfolding joined_evaluators_returned_def
proof (intro allI impI)
  fix g assume g: "0 \<le> g \<and> g < GPUS_PER_NODE c \<and> Join_eval g \<notin> set (main_thread s')"
  show "eval_thread s' g = Eval_returned"
  proof (cases "Join_eval g \<in> set (main_thread s)")
    case False
    with inv g have "eval_thread s g = Eval_returned"
      by (simp add: joined_evaluators_returned_def)
    with st show ?thesis by (rule eval_returned_stays)
  next
    case True
    with g have changed: "main_thread s' \<noteq> main_thread s" by auto
    then obtain v where e: "e = Main_proceeds v"
      using worker_step_main(1) [OF st] st
      by (cases e) (auto simp: main_distributes_def split: list.splits if_splits)
    from st True g have "eval_thread s g = Eval_returned"
      by (auto simp: e main_proceeds_def split: list.splits main_action.splits if_splits)
    with st show ?thesis by (rule eval_returned_stays)
  qed
qed

lemma sentinel_pushed_loaders_returned:
  assumes "main_on_program c s" and "joined_loaders_returned c s" and "one_eval_sentinel c s"
    and g: "0 \<le> g" "g < GPUS_PER_NODE c"
    and ex: "list_ex is_eval_sentinel (eval_work_pushed s g)"
    and w: "0 \<le> w" "w < LOAD_WORKERS_PER_NODE c"
  shows "load_thread s w = Load_returned"
proof -
  from ex have "filter is_eval_sentinel (eval_work_pushed s g) \<noteq> []"
    by (simp add: filter_empty_conv list_ex_iff)
  then have "0 < length (filter is_eval_sentinel (eval_work_pushed s g))" by simp
  moreover from assms(3) g have
    "length (filter is_eval_sentinel (eval_work_pushed s g)) +
       count_list (main_thread s) (Push_eval_sentinel g) = 1"
    by (simp add: one_eval_sentinel_def)
  ultimately have "count_list (main_thread s) (Push_eval_sentinel g) = 0" by linarith
  then have "Push_eval_sentinel g \<notin> set (main_thread s)" by (metis count_list_0_iff)
  with assms(1) g have "Join_load w \<notin> set (main_thread s)"
    using eval_sentinel_after_joins [of "main_thread s" c g w] by (simp add: main_on_program_def)
  with assms(2) w show ?thesis by (simp add: joined_loaders_returned_def)
qed

lemma no_sentinel_before_push:
  assumes "one_eval_sentinel c s" and "0 \<le> g" "g < GPUS_PER_NODE c"
    and "Push_eval_sentinel g \<in> set (main_thread s)"
  shows "\<not> list_ex is_eval_sentinel (eval_work_pushed s g)"
proof
  assume "list_ex is_eval_sentinel (eval_work_pushed s g)"
  then have "filter is_eval_sentinel (eval_work_pushed s g) \<noteq> []"
    by (simp add: filter_empty_conv list_ex_iff)
  then have "0 < length (filter is_eval_sentinel (eval_work_pushed s g))" by simp
  moreover from assms(4) have "count_list (main_thread s) (Push_eval_sentinel g) \<noteq> 0"
    by (metis count_list_0_iff)
  moreover from assms(1-3) have
    "length (filter is_eval_sentinel (eval_work_pushed s g)) +
       count_list (main_thread s) (Push_eval_sentinel g) = 1"
    by (simp add: one_eval_sentinel_def)
  ultimately show False by linarith
qed

lemma carries_iff_not_sentinel: "carries_buffer e \<longleftrightarrow> \<not> is_eval_sentinel e"
  by (simp add: carries_buffer_def is_eval_sentinel_def)

lemma all_carry: "\<not> list_ex is_eval_sentinel h \<Longrightarrow> list_all carries_buffer h"
  by (simp add: list_all_iff list_ex_iff carries_iff_not_sentinel)

lemma eval_history_change:
  assumes st: "step c e s = Some s'" and "eval_work_pushed s' g \<noteq> eval_work_pushed s g"
  shows "(\<exists>v rest. e = Main_proceeds v \<and> main_thread s = Push_eval_sentinel g # rest \<and>
            eval_work_pushed s' g = eval_work_pushed s g @
              [\<lparr>EvalWorkEntry.work_item_index = - 1, buffer_index = v\<rparr>]) \<or>
         (\<exists>w e0 b. e = Load_pushes_eval w \<and> 0 \<le> w \<and> w < LOAD_WORKERS_PER_NODE c \<and>
            load_thread s w = Decoding e0 b \<and> gpu_device_id b = g \<and>
            eval_work_pushed s' g = eval_work_pushed s g @
              [\<lparr>EvalWorkEntry.work_item_index = LoadWorkEntry.work_item_index e0,
                buffer_index = LoadBufferEntry.buffer_index b\<rparr>])"
  using assms
  by (cases e;
      auto simp: main_distributes_def main_proceeds_def load_pops_work_def load_pops_buffer_def
        load_pushes_eval_def eval_pops_def eval_releases_def Let_def
        split: list.splits main_action.splits option.splits if_splits load_pc.splits
          eval_pc.splits)

lemma step_keeps_eval_sentinel_last:
  assumes st: "step c e s = Some s'"
    and sh: "shutdown_invariant c s"
    and inv: "eval_sentinel_last c s"
  shows "eval_sentinel_last c s'"
  unfolding eval_sentinel_last_def
proof (intro allI impI)
  fix g assume g: "0 \<le> g \<and> g < GPUS_PER_NODE c"
  from sh have m: "main_on_program c s" and j: "joined_loaders_returned c s"
    and o: "one_eval_sentinel c s" and hw: "loaders_hold_work s"
    by (simp_all add: shutdown_invariant_def)
  show "list_all carries_buffer (butlast (eval_work_pushed s' g))"
  proof (cases "eval_work_pushed s' g = eval_work_pushed s g")
    case True
    with inv g show ?thesis by (simp add: eval_sentinel_last_def)
  next
    case False
    from eval_history_change [OF st False] have
      "\<exists>x. eval_work_pushed s' g = eval_work_pushed s g @ [x] \<and>
           \<not> list_ex is_eval_sentinel (eval_work_pushed s g)"
    proof (elim disjE exE conjE)
      fix v rest
      assume "main_thread s = Push_eval_sentinel g # rest"
        and h: "eval_work_pushed s' g = eval_work_pushed s g @
              [\<lparr>EvalWorkEntry.work_item_index = - 1, buffer_index = v\<rparr>]"
      then have "Push_eval_sentinel g \<in> set (main_thread s)" by simp
      with o g have "\<not> list_ex is_eval_sentinel (eval_work_pushed s g)"
        by (simp add: no_sentinel_before_push)
      with h show ?thesis by blast
    next
      fix w e0 b
      assume w: "0 \<le> w" "w < LOAD_WORKERS_PER_NODE c"
        and d: "load_thread s w = Decoding e0 b"
        and h: "eval_work_pushed s' g = eval_work_pushed s g @
              [\<lparr>EvalWorkEntry.work_item_index = LoadWorkEntry.work_item_index e0,
                buffer_index = LoadBufferEntry.buffer_index b\<rparr>]"
      have "\<not> list_ex is_eval_sentinel (eval_work_pushed s g)"
      proof
        assume "list_ex is_eval_sentinel (eval_work_pushed s g)"
        with m j o g w have "load_thread s w = Load_returned"
          by (intro sentinel_pushed_loaders_returned [of c s g w]) simp_all
        with d show False by simp
      qed
      with h show ?thesis by blast
    qed
    then show ?thesis by (auto simp: all_carry)
  qed
qed

lemma sentinel_is_last:
  assumes "suffix (e # rest) h" and "list_all P (butlast h)" and "\<not> P e"
  shows "rest = []" and "e \<in> set h"
proof -
  from assms(1) obtain zs where h: "h = zs @ e # rest" by (auto simp: suffix_def)
  show "e \<in> set h" by (simp add: h)
  show "rest = []"
  proof (rule ccontr)
    assume "rest \<noteq> []"
    then have "butlast h = zs @ e # butlast rest" by (simp add: h butlast_append)
    with assms(2) have "P e" by simp
    with assms(3) show False by simp
  qed
qed

lemma eval_returned_how:
  assumes "step c e s = Some s'" and "eval_thread s' g = Eval_returned"
    and "eval_thread s g \<noteq> Eval_returned"
  shows "\<exists>x rest. e = Eval_pops g \<and> eval_work s g = x # rest \<and> is_eval_sentinel x \<and>
           eval_work s' g = rest \<and> eval_work_pushed s' = eval_work_pushed s"
  using assms
  by (cases e;
      auto simp: main_distributes_def main_proceeds_def load_pops_work_def
        load_pops_buffer_def load_pushes_eval_def eval_pops_def eval_releases_def Let_def
        pop_Some is_eval_sentinel_def
        split: list.splits main_action.splits option.splits if_splits load_pc.splits
          eval_pc.splits)

lemma eval_queue_change:
  assumes st: "step c e s = Some s'" and "eval_work s' g \<noteq> eval_work s g"
  shows "eval_work_pushed s' g \<noteq> eval_work_pushed s g \<or> e = Eval_pops g"
  using assms
  by (cases e;
      auto simp: main_distributes_def main_proceeds_def load_pops_work_def load_pops_buffer_def
        load_pushes_eval_def eval_pops_def eval_releases_def Let_def push_def
        split: list.splits main_action.splits option.splits if_splits load_pc.splits
          eval_pc.splits)

lemma step_keeps_evaluators_drained:
  assumes st: "step c e s = Some s'"
    and sh: "shutdown_invariant c s"
    and fifo: "eval_queue_fifo s"
    and last: "eval_sentinel_last c s"
    and inv: "evaluators_drained c s"
  shows "evaluators_drained c s'"
  unfolding evaluators_drained_def
proof (intro allI impI)
  fix g assume g: "0 \<le> g \<and> g < GPUS_PER_NODE c \<and> eval_thread s' g = Eval_returned"
  from sh have m: "main_on_program c s" and j: "joined_loaders_returned c s"
    and o: "one_eval_sentinel c s"
    by (simp_all add: shutdown_invariant_def)
  show "eval_work s' g = [] \<and> list_ex is_eval_sentinel (eval_work_pushed s' g)"
  proof (cases "eval_thread s g = Eval_returned")
    case True
    with inv g have e0: "eval_work s g = []"
      and ex: "list_ex is_eval_sentinel (eval_work_pushed s g)"
      by (simp_all add: evaluators_drained_def)
    have same: "eval_work_pushed s' g = eval_work_pushed s g"
    proof (rule ccontr)
      assume ch: "eval_work_pushed s' g \<noteq> eval_work_pushed s g"
      from eval_history_change [OF st ch] show False
      proof (elim disjE exE conjE)
        fix v rest assume "main_thread s = Push_eval_sentinel g # rest"
        then have "Push_eval_sentinel g \<in> set (main_thread s)" by simp
        with o g ex show False using no_sentinel_before_push [of c s g] by simp
      next
        fix w e0 b
        assume w: "0 \<le> w" "w < LOAD_WORKERS_PER_NODE c"
          and d: "load_thread s w = Decoding e0 b"
        from m j o g ex w have "load_thread s w = Load_returned"
          by (intro sentinel_pushed_loaders_returned [of c s g w]) simp_all
        with d show False by simp
      qed
    qed
    have "eval_work s' g = eval_work s g"
    proof (rule ccontr)
      assume "eval_work s' g \<noteq> eval_work s g"
      from eval_queue_change [OF st this] same have "e = Eval_pops g" by simp
      with st True show False by (simp add: eval_pops_def)
    qed
    with e0 ex same show ?thesis by simp
  next
    case False
    from g have r: "eval_thread s' g = Eval_returned" by simp
    from eval_returned_how [OF st r False] obtain x rest where
      q: "eval_work s g = x # rest" and x: "is_eval_sentinel x" and
      q': "eval_work s' g = rest" and h: "eval_work_pushed s' = eval_work_pushed s"
      by blast
    have sf: "suffix (x # rest) (eval_work_pushed s g)"
      using fifo by (simp add: eval_queue_fifo_def flip: q)
    have cb: "list_all carries_buffer (butlast (eval_work_pushed s g))"
      using last g by (simp add: eval_sentinel_last_def)
    have nx: "\<not> carries_buffer x" using x by (simp add: carries_iff_not_sentinel)
    from sentinel_is_last [OF sf cb nx] x show ?thesis
      by (auto simp: q' h list_ex_iff)
  qed
qed

lemma run_from_snoc:
  "run_from c s (es @ [e]) = (case run_from c s es of None \<Rightarrow> None | Some t \<Rightarrow> step c e t)"
  by (induction es arbitrary: s) (auto split: option.splits)

lemma run_node_induct [consumes 1, case_names initial step]:
  assumes "run_node c es = Some s"
    and "P (initial c)"
    and "\<And>es s e s'. run_node c es = Some s \<Longrightarrow> P s \<Longrightarrow> step c e s = Some s' \<Longrightarrow> P s'"
  shows "P s"
  using assms(1)
proof (induction es arbitrary: s rule: rev_induct)
  case Nil
  with assms(2) show ?case by (simp add: run_node_def)
next
  case (snoc e es)
  from snoc.prems obtain t where t: "run_node c es = Some t" and st: "step c e t = Some s"
    by (auto simp: run_node_def run_from_snoc split: option.splits)
  from assms(3) [OF t snoc.IH [OF t] st] show ?case .
qed

lemma initial_node_work_invariant: "node_work_invariant c (initial c)"
  unfolding node_work_invariant_def
proof (intro conjI)
  show "work_conserved c (initial c)" by (rule initial_work_conserved)
  show "load_queue_fifo (initial c)" by (simp add: load_queue_fifo_def initial_def)
  show "eval_queue_fifo (initial c)" by (simp add: eval_queue_fifo_def initial_def)
  show "loaders_drained (initial c)" by (simp add: loaders_drained_def initial_def)
  show "joined_evaluators_returned c (initial c)"
    by (auto simp: joined_evaluators_returned_def initial_def main_program_def)
  show "eval_sentinel_last c (initial c)" by (simp add: eval_sentinel_last_def initial_def)
  show "evaluators_drained c (initial c)" by (simp add: evaluators_drained_def initial_def)
qed

lemma run_node_work_invariant:
  assumes "run_node c es = Some s"
  shows "node_work_invariant c s"
  using assms
proof (induction rule: run_node_induct)
  case initial
  show ?case by (rule initial_node_work_invariant)
next
  case (step es s e s')
  from step have run: "run_node c es = Some s" and P: "node_work_invariant c s"
    and st: "step c e s = Some s'"
    by simp_all
  note sh = run_node_shutdown_invariant [OF run]
  note pool = run_node_pool [OF run]
  from sh have sent: "load_sentinels_after_work c s" by (simp add: shutdown_invariant_def)
  from P have inv:
    "work_conserved c s" "load_queue_fifo s" "eval_queue_fifo s" "loaders_drained s"
    "joined_evaluators_returned c s" "eval_sentinel_last c s" "evaluators_drained c s"
    by (simp_all add: node_work_invariant_def)
  show ?case
    unfolding node_work_invariant_def
  proof (intro conjI)
    show "work_conserved c s'"
      by (rule step_keeps_work_conserved [OF st pool inv(1)])
    show "load_queue_fifo s'" by (rule step_keeps_load_queue_fifo [OF st inv(2)])
    show "eval_queue_fifo s'" by (rule step_keeps_eval_queue_fifo [OF st inv(3)])
    show "loaders_drained s'"
      by (rule step_keeps_loaders_drained [OF st inv(2) sent inv(4)])
    show "joined_evaluators_returned c s'"
      by (rule step_keeps_joined_evaluators_returned [OF st inv(5)])
    show "eval_sentinel_last c s'"
      by (rule step_keeps_eval_sentinel_last [OF st sh inv(6)])
    show "evaluators_drained c s'"
      by (rule step_keeps_evaluators_drained [OF st sh inv(3) inv(6) inv(7)])
  qed
qed

lemma sum_list_empty:
  "(\<And>x. x \<in> set xs \<Longrightarrow> f x = {#}) \<Longrightarrow> (\<Sum>x\<leftarrow>xs. f x) = {#}"
  by (induction xs) simp_all

lemma work_of_sentinels: "list_all is_load_sentinel q \<Longrightarrow> work_of q = {#}"
  by (induction q) (simp_all add: work_of_def)

lemma completed_run_evaluates_pushed_work:
  assumes run: "run_node c es = Some s"
    and fin: "main_thread s = []"
    and L: "1 \<le> LOAD_WORKERS_PER_NODE c"
  shows "mset (map (\<lambda>(g, item, i). item) (evaluated s)) = work_of (load_work_pushed s)"
proof -
  note sh = run_node_shutdown_invariant [OF run]
  note inv = run_node_work_invariant [OF run, unfolded node_work_invariant_def]
  from sh fin have lr: "load_thread s w = Load_returned"
    if "0 \<le> w" "w < LOAD_WORKERS_PER_NODE c" for w
    using that by (simp add: shutdown_invariant_def joined_loaders_returned_def)
  from L have "load_thread s 0 = Load_returned" by (intro lr) simp_all
  with inv have "list_all is_load_sentinel (load_work s)"
    by (auto simp: loaders_drained_def)
  then have a: "work_of (load_work s) = {#}" by (rule work_of_sentinels)
  have b: "(\<Sum>w\<leftarrow>[0..LOAD_WORKERS_PER_NODE c - 1]. loader_work (load_thread s w)) = {#}"
    by (rule sum_list_empty) (auto simp: lr loader_work_def)
  from inv fin have er: "eval_thread s g = Eval_returned"
    if "0 \<le> g" "g < GPUS_PER_NODE c" for g
    using that by (simp add: joined_evaluators_returned_def)
  with inv have eq: "eval_work s g = []" if "0 \<le> g" "g < GPUS_PER_NODE c" for g
    using that by (simp add: evaluators_drained_def)
  have d: "(\<Sum>g\<leftarrow>[0..GPUS_PER_NODE c - 1]. queued_work (eval_work s g)) = {#}"
    by (rule sum_list_empty) (auto simp: eq queued_work_def)
  have e: "(\<Sum>g\<leftarrow>[0..GPUS_PER_NODE c - 1]. evaluator_work (eval_thread s g)) = {#}"
    by (rule sum_list_empty) (auto simp: er evaluator_work_def)
  from inv have "work_in_node c s = work_of (load_work_pushed s)"
    by (simp add: work_conserved_def)
  then show "mset (map (\<lambda>(g, item, i). item) (evaluated s)) = work_of (load_work_pushed s)"
    by (simp add: work_in_node_def a b d e)
qed

section \<open>Buffers stay with their GPU\<close>

lemma eval_history_grows:
  assumes "step c e s = Some s'"
  shows "set (eval_work_pushed s g) \<subseteq> set (eval_work_pushed s' g)"
proof (cases "eval_work_pushed s' g = eval_work_pushed s g")
  case True
  then show ?thesis by simp
next
  case False
  from eval_history_change [OF assms False] show ?thesis by auto
qed

lemma evaluated_change:
  assumes "step c e s = Some s'" and "evaluated s' \<noteq> evaluated s"
  shows "\<exists>g x. e = Eval_releases g \<and> eval_thread s g = Processing x \<and>
           evaluated s' = evaluated s @
             [(g, EvalWorkEntry.work_item_index x, EvalWorkEntry.buffer_index x)]"
  using assms
  by (cases e;
      auto simp: main_distributes_def main_proceeds_def load_pops_work_def load_pops_buffer_def
        load_pushes_eval_def eval_pops_def eval_releases_def Let_def
        split: list.splits main_action.splits option.splits if_splits load_pc.splits
          eval_pc.splits)

lemma processing_change:
  assumes "step c e s = Some s'" and "eval_thread s' g = Processing x"
    and "eval_thread s g \<noteq> Processing x"
  shows "\<exists>rest. e = Eval_pops g \<and> eval_work s g = x # rest \<and> carries_buffer x"
  using assms
  by (cases e;
      auto simp: main_distributes_def main_proceeds_def load_pops_work_def load_pops_buffer_def
        load_pushes_eval_def eval_pops_def eval_releases_def Let_def pop_Some carries_buffer_def
        split: list.splits main_action.splits option.splits if_splits load_pc.splits
          eval_pc.splits)

lemma step_keeps_affine:
  assumes st: "step c e s = Some s'"
    and pool: "buffer_identities c s = mset (buffer_pool c)"
    and fifo: "eval_queue_fifo s"
    and aff: "affine c s"
  shows "affine c s'"
  unfolding affine_def
proof (intro conjI allI impI)
  fix g x assume x: "x \<in> set (eval_work_pushed s' g) \<and> carries_buffer x"
  show "identity_of g x \<in> set (buffer_pool c)"
  proof (cases "eval_work_pushed s' g = eval_work_pushed s g")
    case True
    with x aff show ?thesis by (simp add: affine_def)
  next
    case False
    from eval_history_change [OF st False] show ?thesis
    proof (elim disjE exE conjE)
      fix v rest
      assume "eval_work_pushed s' g = eval_work_pushed s g @
              [\<lparr>EvalWorkEntry.work_item_index = - 1, buffer_index = v\<rparr>]"
      with x have "x \<in> set (eval_work_pushed s g)" by (auto simp: carries_buffer_def)
      with x aff show ?thesis by (simp add: affine_def)
    next
      fix w e0 b
      assume w: "0 \<le> w" "w < LOAD_WORKERS_PER_NODE c"
        and d: "load_thread s w = Decoding e0 b" and g: "gpu_device_id b = g"
        and h: "eval_work_pushed s' g = eval_work_pushed s g @
              [\<lparr>EvalWorkEntry.work_item_index = LoadWorkEntry.work_item_index e0,
                buffer_index = LoadBufferEntry.buffer_index b\<rparr>]"
      from decoding_buffer_unique(3) [OF pool w d] have b: "b \<in> set (buffer_pool c)" .
      from x h consider "x \<in> set (eval_work_pushed s g)"
        | "x = \<lparr>EvalWorkEntry.work_item_index = LoadWorkEntry.work_item_index e0,
                buffer_index = LoadBufferEntry.buffer_index b\<rparr>"
        by auto
      then show ?thesis
      proof cases
        case 1
        with x aff show ?thesis by (simp add: affine_def)
      next
        case 2
        then have "identity_of g x = b" using g by (simp add: identity_of_def)
        with b show ?thesis by simp
      qed
    qed
  qed
next
  fix g x assume p: "eval_thread s' g = Processing x"
  show "carries_buffer x" "x \<in> set (eval_work_pushed s' g)"
  proof -
    have "carries_buffer x \<and> x \<in> set (eval_work_pushed s g)"
    proof (cases "eval_thread s g = Processing x")
      case True
      with aff show ?thesis by (simp add: affine_def)
    next
      case False
      from processing_change [OF st p False] obtain rest where
        q: "eval_work s g = x # rest" and cb: "carries_buffer x" by blast
      from fifo have "suffix (eval_work s g) (eval_work_pushed s g)"
        by (simp add: eval_queue_fifo_def)
      then have "set (eval_work s g) \<subseteq> set (eval_work_pushed s g)" by (rule set_mono_suffix)
      with q cb show ?thesis by auto
    qed
    with eval_history_grows [OF st, of g]
    show "carries_buffer x" "x \<in> set (eval_work_pushed s' g)" by auto
  qed
next
  have old: "list_all (\<lambda>(g, item, i).
          \<lparr>EvalWorkEntry.work_item_index = item, buffer_index = i\<rparr> \<in> set (eval_work_pushed s' g) \<and>
          item \<noteq> - 1) (evaluated s)"
    unfolding list_all_iff
  proof
    fix t assume t: "t \<in> set (evaluated s)"
    obtain g item i where ti: "t = (g, item, i)" by (cases t)
    from aff t ti have
      "\<lparr>EvalWorkEntry.work_item_index = item, buffer_index = i\<rparr> \<in> set (eval_work_pushed s g)"
      and ne: "item \<noteq> - 1"
      by (auto simp: affine_def list_all_iff)
    with eval_history_grows [OF st, of g] show "case t of (g, item, i) \<Rightarrow>
          \<lparr>EvalWorkEntry.work_item_index = item, buffer_index = i\<rparr> \<in> set (eval_work_pushed s' g) \<and>
          item \<noteq> - 1"
      by (auto simp: ti)
  qed
  show "list_all (\<lambda>(g, item, i).
          \<lparr>EvalWorkEntry.work_item_index = item, buffer_index = i\<rparr> \<in> set (eval_work_pushed s' g) \<and>
          item \<noteq> - 1) (evaluated s')"
  proof (cases "evaluated s' = evaluated s")
    case True
    with old show ?thesis by simp
  next
    case False
    from evaluated_change [OF st False] obtain g x where
      p: "eval_thread s g = Processing x" and
      ev: "evaluated s' = evaluated s @
             [(g, EvalWorkEntry.work_item_index x, EvalWorkEntry.buffer_index x)]"
      by blast
    from aff p have "carries_buffer x" "x \<in> set (eval_work_pushed s g)"
      by (auto simp: affine_def)
    with eval_history_grows [OF st, of g]
    have "x \<in> set (eval_work_pushed s' g)" "EvalWorkEntry.work_item_index x \<noteq> - 1"
      by (auto simp: carries_buffer_def)
    note m = this
    have eta: "\<lparr>EvalWorkEntry.work_item_index = EvalWorkEntry.work_item_index x,
        buffer_index = EvalWorkEntry.buffer_index x\<rparr> = x"
      by (cases x) simp
    have "\<lparr>EvalWorkEntry.work_item_index = EvalWorkEntry.work_item_index x,
        buffer_index = EvalWorkEntry.buffer_index x\<rparr> \<in> set (eval_work_pushed s' g)"
      using m(1) by (simp only: eta)
    with old m(2) show ?thesis by (simp add: ev)
  qed
qed

lemma initial_affine: "affine c (initial c)"
  by (simp add: affine_def initial_def)

lemma run_node_affine:
  assumes "run_node c es = Some s"
  shows "affine c s"
  using assms
proof (induction rule: run_node_induct)
  case initial
  show ?case by (rule initial_affine)
next
  case (step es s e s')
  from step have run: "run_node c es = Some s" and P: "affine c s"
    and st: "step c e s = Some s'"
    by simp_all
  from run_node_work_invariant [OF run] have fifo: "eval_queue_fifo s"
    by (simp add: node_work_invariant_def)
  show ?case by (rule step_keeps_affine [OF st run_node_pool(2) [OF run] fifo P])
qed

text \<open>
  Claim C5 as stated fails for the sentinel entry: its \<^verbatim>\<open>buffer_index\<close> is never assigned,
  and with the value 7, say, it names no buffer of GPU 0.
\<close>

theorem sentinel_entry_references_no_buffer:
  "map_option (\<lambda>s. eval_work s 0) (run_node tiny_config sentinel_schedule) =
     Some [\<lparr>EvalWorkEntry.work_item_index = - 1, buffer_index = 7\<rparr>] \<and>
   identity_of 0 \<lparr>EvalWorkEntry.work_item_index = - 1, buffer_index = 7\<rparr>
     \<notin> set (buffer_pool tiny_config)"
  by (simp add: sentinel_schedule_state buffer_pool_tiny identity_of_def)

text \<open>
  Claim C5, amended.  In every state of every run:
  \<^item> every entry ever pushed into \<^verbatim>\<open>eval_work[g]\<close> that is not a sentinel names, together
    with \<open>g\<close>, one of the buffers allocated for GPU \<open>g\<close>, and what is in a queue is the end
    of what was pushed into it;
  \<^item> a load worker that holds buffer \<open>b\<close> holds a buffer of the pool, and its push (line
    354) appends the entry with \<open>b\<close>'s \<^verbatim>\<open>buffer_index\<close> to the queue of \<open>b\<close>'s
    \<^verbatim>\<open>gpu_device_id\<close> and to no other;
  \<^item> the pop of the evaluate worker of GPU \<open>g\<close> (line 483) takes the head of
    \<^verbatim>\<open>eval_work[g]\<close> and leaves the other queues alone;
  \<^item> the entry that the evaluate worker of GPU \<open>g\<close> is processing is not a sentinel, was
    pushed into \<^verbatim>\<open>eval_work[g]\<close> and names a buffer of GPU \<open>g\<close>, and that identity is the one
    it pushes back (lines 648--651);
  \<^item> every evaluation so far read GPU \<open>g\<close>'s array at the index of an entry pushed into
    \<^verbatim>\<open>eval_work[g]\<close>, which is an index of that array.
\<close>

theorem eval_entries_keep_gpu_affinity:
  assumes "run_node c es = Some s"
  shows "(\<forall>g e. e \<in> set (eval_work_pushed s g) \<and> carries_buffer e \<longrightarrow>
            0 \<le> g \<and> g < GPUS_PER_NODE c \<and> identity_of g e \<in> set (buffer_pool c)) \<and>
         (\<forall>g. suffix (eval_work s g) (eval_work_pushed s g)) \<and>
         (\<forall>w e0 b.
            0 \<le> w \<and> w < LOAD_WORKERS_PER_NODE c \<and> load_thread s w = Decoding e0 b \<longrightarrow>
            b \<in> set (buffer_pool c) \<and>
            map_option eval_work (step c (Load_pushes_eval w) s) =
              Some ((eval_work s)
                (gpu_device_id b := eval_work s (gpu_device_id b) @
                   [\<lparr>EvalWorkEntry.work_item_index = LoadWorkEntry.work_item_index e0,
                     buffer_index = LoadBufferEntry.buffer_index b\<rparr>]))) \<and>
         (\<forall>g x rest.
            0 \<le> g \<and> g < GPUS_PER_NODE c \<and> eval_thread s g = Wait_eval \<and>
            eval_work s g = x # rest \<longrightarrow>
            map_option (\<lambda>s'. (eval_thread s' g, eval_work s')) (step c (Eval_pops g) s) =
              Some (if is_eval_sentinel x then Eval_returned else Processing x,
                    (eval_work s)(g := rest))) \<and>
         (\<forall>g e. eval_thread s g = Processing e \<longrightarrow>
            carries_buffer e \<and> e \<in> set (eval_work_pushed s g) \<and>
            identity_of g e \<in> set (buffer_pool c) \<and>
            map_option (\<lambda>s'. (evaluated s', empty_load_buffers s'))
              (step c (Eval_releases g) s) =
              Some (evaluated s @
                      [(g, EvalWorkEntry.work_item_index e, EvalWorkEntry.buffer_index e)],
                    empty_load_buffers s @ [identity_of g e])) \<and>
         list_all (\<lambda>(g, item, i).
              \<lparr>EvalWorkEntry.work_item_index = item, buffer_index = i\<rparr>
                \<in> set (eval_work_pushed s g) \<and>
              item \<noteq> - 1 \<and>
              \<lparr>gpu_device_id = g, buffer_index = i\<rparr> \<in> set (buffer_pool c))
           (evaluated s)"
proof -
  note aff = run_node_affine [OF assms, unfolded affine_def]
  note pool = run_node_pool(2) [OF assms]
  from run_node_work_invariant [OF assms] have fifo: "eval_queue_fifo s"
    by (simp add: node_work_invariant_def)
  have a: "0 \<le> g \<and> g < GPUS_PER_NODE c \<and> identity_of g e \<in> set (buffer_pool c)"
    if "e \<in> set (eval_work_pushed s g) \<and> carries_buffer e" for g e
  proof -
    from aff that have "identity_of g e \<in> set (buffer_pool c)" by blast
    then show ?thesis by (simp add: in_buffer_pool identity_of_def)
  qed
  have b: "suffix (eval_work s g) (eval_work_pushed s g)" for g
    using fifo by (simp add: eval_queue_fifo_def)
  have l: "b \<in> set (buffer_pool c) \<and>
            map_option eval_work (step c (Load_pushes_eval w) s) =
              Some ((eval_work s)
                (gpu_device_id b := eval_work s (gpu_device_id b) @
                   [\<lparr>EvalWorkEntry.work_item_index = LoadWorkEntry.work_item_index e0,
                     buffer_index = LoadBufferEntry.buffer_index b\<rparr>]))"
    if "0 \<le> w \<and> w < LOAD_WORKERS_PER_NODE c \<and> load_thread s w = Decoding e0 b" for w e0 b
  proof -
    from that have w: "0 \<le> w" "w < LOAD_WORKERS_PER_NODE c"
      and d: "load_thread s w = Decoding e0 b" by simp_all
    from decoding_buffer_unique(3) [OF pool w d] w d show ?thesis
      by (simp add: load_pushes_eval_def Let_def push_def)
  qed
  have p: "map_option (\<lambda>s'. (eval_thread s' g, eval_work s')) (step c (Eval_pops g) s) =
              Some (if is_eval_sentinel x then Eval_returned else Processing x,
                    (eval_work s)(g := rest))"
    if "0 \<le> g \<and> g < GPUS_PER_NODE c \<and> eval_thread s g = Wait_eval \<and> eval_work s g = x # rest"
    for g x rest
    using that by (simp add: eval_pops_def pop_def is_eval_sentinel_def)
  have e: "carries_buffer e \<and> e \<in> set (eval_work_pushed s g) \<and>
            identity_of g e \<in> set (buffer_pool c) \<and>
            map_option (\<lambda>s'. (evaluated s', empty_load_buffers s'))
              (step c (Eval_releases g) s) =
              Some (evaluated s @
                      [(g, EvalWorkEntry.work_item_index e, EvalWorkEntry.buffer_index e)],
                    empty_load_buffers s @ [identity_of g e])"
    if pr: "eval_thread s g = Processing e" for g e
  proof -
    from aff pr have m: "carries_buffer e \<and> e \<in> set (eval_work_pushed s g)" by blast
    with a [of e g] have g: "0 \<le> g \<and> g < GPUS_PER_NODE c \<and> identity_of g e \<in> set (buffer_pool c)"
      by simp
    with m pr show ?thesis
      by (simp add: eval_releases_def push_def identity_of_def)
  qed
  have v: "list_all (\<lambda>(g, item, i).
              \<lparr>EvalWorkEntry.work_item_index = item, buffer_index = i\<rparr>
                \<in> set (eval_work_pushed s g) \<and>
              item \<noteq> - 1 \<and>
              \<lparr>gpu_device_id = g, buffer_index = i\<rparr> \<in> set (buffer_pool c))
           (evaluated s)"
    unfolding list_all_iff
  proof
    fix t assume t: "t \<in> set (evaluated s)"
    obtain g item i where ti: "t = (g, item, i)" by (cases t)
    from aff t ti have
      m: "\<lparr>EvalWorkEntry.work_item_index = item, buffer_index = i\<rparr> \<in> set (eval_work_pushed s g)"
      and ne: "item \<noteq> - 1"
      by (auto simp: list_all_iff)
    from a [of "\<lparr>EvalWorkEntry.work_item_index = item, buffer_index = i\<rparr>" g] m ne
    have "\<lparr>gpu_device_id = g, buffer_index = i\<rparr> \<in> set (buffer_pool c)"
      by (simp add: carries_buffer_def identity_of_def)
    with m ne show "case t of (g, item, i) \<Rightarrow>
              \<lparr>EvalWorkEntry.work_item_index = item, buffer_index = i\<rparr>
                \<in> set (eval_work_pushed s g) \<and>
              item \<noteq> - 1 \<and>
              \<lparr>gpu_device_id = g, buffer_index = i\<rparr> \<in> set (buffer_pool c)"
      by (simp add: ti)
  qed
  show ?thesis using a b l p e v by blast
qed

theorem eval_entries_keep_gpu_affinity_witness:
  "run_node tiny_config complete_schedule = Some complete_state \<and>
   evaluated complete_state = [(0, 0, 0)] \<and>
   \<lparr>EvalWorkEntry.work_item_index = 0, buffer_index = 0\<rparr>
     \<in> set (eval_work_pushed complete_state 0) \<and>
   carries_buffer \<lparr>EvalWorkEntry.work_item_index = 0, buffer_index = 0\<rparr> \<and>
   identity_of 0 \<lparr>EvalWorkEntry.work_item_index = 0, buffer_index = 0\<rparr>
     \<in> set (buffer_pool tiny_config) \<and>
   \<lparr>gpu_device_id = 0, buffer_index = 0\<rparr> \<in> set (buffer_pool tiny_config)"
proof -
  have m: "\<lparr>EvalWorkEntry.work_item_index = 0, buffer_index = 0\<rparr>
             \<in> set (eval_work_pushed complete_state 0) \<and>
           carries_buffer \<lparr>EvalWorkEntry.work_item_index = 0, buffer_index = 0\<rparr>"
    by (simp add: complete_state_def carries_buffer_def)
  with eval_entries_keep_gpu_affinity [OF complete_schedule_state]
  have "identity_of 0 \<lparr>EvalWorkEntry.work_item_index = 0, buffer_index = 0\<rparr>
          \<in> set (buffer_pool tiny_config)"
    by blast
  with m show ?thesis
    by (simp add: complete_schedule_state identity_of_def complete_state_def)
qed

section \<open>The dispatcher hands out every index once\<close>

lemma mset_upto_snoc: "0 \<le> k \<Longrightarrow> mset [0..k] = mset [0..k - 1] + {#k#}"
  by (simp add: upto_rec2)

lemma in_flight_append:
  "in_flight (s\<lparr>replies := replies s @ [(d, v)]\<rparr>) =
     in_flight s @ (if v = - 1 then [] else [v])"
  by (simp add: in_flight_def)

lemma map_of_in: "map_of xs k = Some v \<Longrightarrow> (k, v) \<in> set xs"
  by (rule map_of_SomeD)

lemma mset_in_flight_remove:
  assumes "(r, v) \<in> set rs"
  shows "mset (filter (\<lambda>v. v \<noteq> - 1) (map snd (remove1 (r, v) rs))) +
           (if v = - 1 then {#} else {#v#}) =
         mset (filter (\<lambda>v. v \<noteq> - 1) (map snd rs))"
  using assms
proof (induction rs)
  case Nil
  then show ?case by simp
next
  case (Cons a rs)
  then show ?case by (cases "a = (r, v)") auto
qed

lemma fst_remove1:
  assumes "(r, v) \<in> set rs" and "distinct (map fst rs)"
  shows "set (map fst (remove1 (r, v) rs)) = set (map fst rs) - {r}"
    and "distinct (map fst (remove1 (r, v) rs))"
proof -
  from assms(2) have d: "distinct rs" and i: "inj_on fst (set rs)"
    by (simp_all add: distinct_map)
  have s: "set (remove1 (r, v) rs) = set rs - {(r, v)}"
    using d by (rule set_remove1_eq)
  have "fst ` (set rs - {(r, v)}) = fst ` set rs - fst ` {(r, v)}"
    using i assms(1) by (intro inj_on_image_set_diff [of fst "set rs"]) auto
  then show "set (map fst (remove1 (r, v) rs)) = set (map fst rs) - {r}"
    by (simp add: s)
  have "inj_on fst (set (remove1 (r, v) rs))"
    using i by (rule inj_on_subset) (simp add: s)
  then show "distinct (map fst (remove1 (r, v) rs))"
    using d by (simp add: distinct_map)
qed


lemma fst_in_set: "(r, v) \<in> set rs \<Longrightarrow> r \<in> fst ` set rs"
  by force

lemma inv_master_self_assign:
  assumes inv: "cluster_invariant n num_nodes s"
    and lt: "next_work_item_to_allocate s < item_count n"
  shows "cluster_invariant n num_nodes
           (s\<lparr>pushed := pushed s @ [(0, next_work_item_to_allocate s)],
              next_work_item_to_allocate := next_work_item_to_allocate s + 1\<rparr>)"
proof -
  from inv have k0: "0 \<le> next_work_item_to_allocate s" by (simp add: cluster_invariant_def)
  note up = mset_upto_snoc [OF k0]
  from inv lt up show ?thesis
    by (simp add: cluster_invariant_def in_flight_def)
qed

lemma inv_master_serves:
  assumes inv: "cluster_invariant n num_nodes s"
    and lt: "next_work_item_to_allocate s < item_count n"
    and src: "source \<in> set (requests s)"
  shows "cluster_invariant n num_nodes
           (s\<lparr>requests := remove1 source (requests s),
              replies := replies s @ [(source, next_work_item_to_allocate s)],
              next_work_item_to_allocate := next_work_item_to_allocate s + 1\<rparr>)"
    (is "cluster_invariant n num_nodes ?s'")
proof -
  let ?k = "next_work_item_to_allocate s"
  from inv have k0: "0 \<le> ?k" by (simp add: cluster_invariant_def)
  note up = mset_upto_snoc [OF k0]
  have d: "distinct (requests s @ map fst (replies s))"
    using inv by (simp add: cluster_invariant_def)
  have d': "distinct (remove1 source (requests s) @ map fst (replies s @ [(source, ?k)]))"
    using d src by auto
  have set': "set (remove1 source (requests s) @ map fst (replies s @ [(source, ?k)])) =
              set (requests s @ map fst (replies s))"
    using d src by auto
  have fl: "in_flight ?s' = in_flight s @ [?k]"
    using k0 by (simp add: in_flight_def)
  have "mset (map snd (pushed s)) + mset (in_flight s) = mset [0..?k - 1]"
    using inv by (simp add: cluster_invariant_def)
  then have b: "mset (map snd (pushed ?s')) + mset (in_flight ?s') =
           mset [0..next_work_item_to_allocate ?s' - 1]"
    using up by (simp add: fl)
  have dd: "\<forall>r \<in> set (requests ?s' @ map fst (replies ?s')).
      1 \<le> r \<and> r < num_nodes \<and> node_state ?s' r = Awaiting_reply"
  proof
    fix r assume "r \<in> set (requests ?s' @ map fst (replies ?s'))"
    then have "r \<in> set (remove1 source (requests s) @
                         map fst (replies s @ [(source, ?k)]))"
      by simp
    then have "r \<in> set (requests s @ map fst (replies s))"
      by (simp only: set')
    with inv show "1 \<le> r \<and> r < num_nodes \<and> node_state ?s' r = Awaiting_reply"
      by (simp add: cluster_invariant_def)
  qed
  have a: "0 \<le> next_work_item_to_allocate ?s'" "next_work_item_to_allocate ?s' \<le> item_count n"
    using k0 lt by simp_all
  have d'': "distinct (requests ?s' @ map fst (replies ?s'))" using d' by simp
  show ?thesis
    unfolding cluster_invariant_def using a b d'' dd by blast
qed

lemma inv_master_iterates:
  assumes st: "master_iterates c n num_nodes local_work source s = Some s'"
    and inv: "cluster_invariant n num_nodes s"
  shows "cluster_invariant n num_nodes s'"
proof (cases "next_work_item_to_allocate s < item_count n \<and> 0 \<le> local_work")
  case False
  with st show ?thesis by (simp add: master_iterates_def)
next
  case both: True
  then have lt: "next_work_item_to_allocate s < item_count n" by simp
  show ?thesis
  proof (cases "local_work < high_water c")
    case True
    with st both have "s' = s\<lparr>pushed := pushed s @ [(0, next_work_item_to_allocate s)],
              next_work_item_to_allocate := next_work_item_to_allocate s + 1\<rparr>"
      by (simp add: master_iterates_def)
    then show ?thesis using inv_master_self_assign [OF inv lt] by simp
  next
    case hw: False
    show ?thesis
    proof (cases "num_nodes > 1")
      case False
      with st both hw have "s' = s" by (simp add: master_iterates_def)
      with inv show ?thesis by simp
    next
      case True
      show ?thesis
      proof (cases "source \<in> set (requests s)")
        case False
        with st both hw True show ?thesis by (simp add: master_iterates_def)
      next
        case src: True
        with st both hw True have
          "s' = s\<lparr>requests := remove1 source (requests s),
              replies := replies s @ [(source, next_work_item_to_allocate s)],
              next_work_item_to_allocate := next_work_item_to_allocate s + 1\<rparr>"
          by (simp add: master_iterates_def)
        then show ?thesis using inv_master_serves [OF inv lt src] by simp
      qed
    qed
  qed
qed

lemma inv_master_drains:
  assumes st: "master_drains n num_nodes source s = Some s'"
    and inv: "cluster_invariant n num_nodes s"
  shows "cluster_invariant n num_nodes s'"
proof -
  from st have src: "source \<in> set (requests s)" and
    s': "s' = s\<lparr>requests := remove1 source (requests s),
               replies := replies s @ [(source, - 1)],
               workers_done := workers_done s + 1\<rparr>"
    by (auto simp: master_drains_def split: if_splits)
  have d: "distinct (requests s @ map fst (replies s))"
    using inv by (simp add: cluster_invariant_def)
  have d': "distinct (remove1 source (requests s) @ map fst (replies s @ [(source, - 1)]))"
    using d src by auto
  have set': "set (remove1 source (requests s) @ map fst (replies s @ [(source, - 1)])) =
              set (requests s @ map fst (replies s))"
    using d src by auto
  have fl: "in_flight s' = in_flight s" by (simp add: s' in_flight_def)
  have b: "mset (map snd (pushed s')) + mset (in_flight s') =
           mset [0..next_work_item_to_allocate s' - 1]"
    using inv by (simp add: fl) (simp add: s' cluster_invariant_def)
  have dd: "\<forall>r \<in> set (requests s' @ map fst (replies s')).
      1 \<le> r \<and> r < num_nodes \<and> node_state s' r = Awaiting_reply"
    using inv set' by (simp add: s' cluster_invariant_def)
  show ?thesis
    unfolding cluster_invariant_def
    using b dd d' inv by (simp add: s' cluster_invariant_def)
qed

lemma inv_node_polls:
  assumes st: "node_polls c num_nodes r local_work s = Some s'"
    and inv: "cluster_invariant n num_nodes s"
  shows "cluster_invariant n num_nodes s'"
proof (cases "local_work < high_water c")
  case False
  with st have "s' = s" by (auto simp: node_polls_def split: if_splits)
  with inv show ?thesis by simp
next
  case True
  with st have r: "1 \<le> r" "r < num_nodes" "node_state s r = Polling" and
    s': "s' = s\<lparr>requests := requests s @ [r],
               node_state := (node_state s)(r := Awaiting_reply)\<rparr>"
    by (auto simp: node_polls_def split: if_splits)
  have fresh: "r \<notin> set (requests s @ map fst (replies s))"
  proof
    assume "r \<in> set (requests s @ map fst (replies s))"
    with inv have "node_state s r = Awaiting_reply"
      unfolding cluster_invariant_def by blast
    with r(3) show False by simp
  qed
  have fl: "in_flight s' = in_flight s" by (simp add: s' in_flight_def)
  show ?thesis
    unfolding cluster_invariant_def
    using inv fresh r by (simp add: fl) (auto simp: s' cluster_invariant_def)
qed

lemma inv_node_receives:
  assumes st: "node_receives r s = Some s'"
    and inv: "cluster_invariant n num_nodes s"
  shows "cluster_invariant n num_nodes s'"
proof -
  from st obtain v where
    m: "map_of (replies s) r = Some v" and
    rp: "replies s' = remove1 (r, v) (replies s)" and
    rq: "requests s' = requests s" and
    nx: "next_work_item_to_allocate s' = next_work_item_to_allocate s" and
    ps: "pushed s' = (if v = - 1 then pushed s else pushed s @ [(r, v)])" and
    ns: "node_state s' = (node_state s)(r := if v = - 1 then No_more_work else Polling)"
    by (auto simp: node_receives_def split: if_splits option.splits)
  from m have mem: "(r, v) \<in> set (replies s)" by (rule map_of_SomeD)
  have d: "distinct (requests s @ map fst (replies s))"
    using inv by (simp add: cluster_invariant_def)
  then have dr: "distinct (map fst (replies s))" by simp
  note f = fst_remove1 [OF mem dr]
  have rnot: "r \<notin> set (requests s)"
    using d fst_in_set [OF mem] by auto
  have d': "distinct (requests s' @ map fst (replies s'))"
    using d f by (auto simp: rp rq)
  have b: "mset (map snd (pushed s')) + mset (in_flight s') =
           mset [0..next_work_item_to_allocate s' - 1]"
  proof -
    let ?X = "if v = - 1 then {#} else {#v#}"
    have A: "mset (in_flight s') + ?X = mset (in_flight s)"
      using mset_in_flight_remove [OF mem] by (simp add: in_flight_def rp)
    have P: "mset (map snd (pushed s')) = mset (map snd (pushed s)) + ?X"
      by (simp add: ps)
    have I: "mset (map snd (pushed s)) + mset (in_flight s) =
             mset [0..next_work_item_to_allocate s - 1]"
      using inv by (simp add: cluster_invariant_def)
    have "mset (map snd (pushed s')) + mset (in_flight s') =
          mset (map snd (pushed s)) + (mset (in_flight s') + ?X)"
      by (simp only: P ac_simps)
    also have "\<dots> = mset (map snd (pushed s)) + mset (in_flight s)"
      by (simp only: A)
    also have "\<dots> = mset [0..next_work_item_to_allocate s' - 1]"
      by (simp only: I nx)
    finally show ?thesis .
  qed
  have dd: "\<forall>x \<in> set (requests s' @ map fst (replies s')).
      1 \<le> x \<and> x < num_nodes \<and> node_state s' x = Awaiting_reply"
  proof
    fix x assume x: "x \<in> set (requests s' @ map fst (replies s'))"
    then have "x \<in> set (requests s @ map fst (replies s))" and "x \<noteq> r"
      using f(1) rnot by (auto simp: rp rq)
    with inv show "1 \<le> x \<and> x < num_nodes \<and> node_state s' x = Awaiting_reply"
      by (simp add: cluster_invariant_def ns)
  qed
  show ?thesis
    unfolding cluster_invariant_def
    using b dd d' inv by (simp add: nx cluster_invariant_def)
qed

lemma cluster_step_keeps_invariant:
  assumes "cluster_step c n num_nodes e s = Some s'" and "cluster_invariant n num_nodes s"
  shows "cluster_invariant n num_nodes s'"
  using assms
  by (cases e)
    (auto intro: inv_master_iterates inv_master_drains inv_node_polls inv_node_receives)

lemma item_count_id: "int n < 2147483648 \<Longrightarrow> item_count n = int n"
  by (simp add: item_count_def int32_id)

lemma cluster_start_invariant:
  "0 \<le> item_count n \<Longrightarrow> cluster_invariant n num_nodes cluster_start"
  by (simp add: cluster_invariant_def cluster_start_def in_flight_def)

lemma cluster_run_keeps_invariant:
  "cluster_run_from c n num_nodes s es = Some s' \<Longrightarrow> cluster_invariant n num_nodes s \<Longrightarrow>
   cluster_invariant n num_nodes s'"
proof (induction es arbitrary: s)
  case Nil
  then show ?case by simp
next
  case (Cons e es)
  from Cons.prems(1) obtain s1 where
    s1: "cluster_step c n num_nodes e s = Some s1" and
    rest: "cluster_run_from c n num_nodes s1 es = Some s'"
    by (auto split: option.splits)
  show ?case
    using Cons.IH [OF rest cluster_step_keeps_invariant [OF s1 Cons.prems(2)]] .
qed

lemma run_cluster_invariant:
  assumes "run_cluster c n num_nodes es = Some s" and "0 \<le> item_count n"
  shows "cluster_invariant n num_nodes s"
  using cluster_run_keeps_invariant [OF assms(1) [unfolded run_cluster_def]
      cluster_start_invariant [OF assms(2)]] .


lemma count_upto: "count (mset [a..b]) k = (if a \<le> k \<and> k \<le> b then 1 else 0)"
proof -
  have "distinct [a..b]" by simp
  then have "count (mset [a..b]) k = (if k \<in> set [a..b] then 1 else 0)"
    by (rule distinct_count_atmost_1 [THEN iffD1, rule_format])
  then show ?thesis by simp
qed

lemma count_filter_snd:
  "count (mset (map snd ps)) k = length (filter (\<lambda>p. snd p = k) ps)"
  by (induction ps) auto

lemma two_node_schedule_state:
  "run_cluster tiny_config 2 2 two_node_schedule =
     Some \<lparr>next_work_item_to_allocate = 2, workers_done = 2, requests = [], replies = [],
            node_state = (\<lambda>r. Polling)(1 := No_more_work), pushed = [(0, 0), (1, 1)]\<rparr>"
  by (simp add: run_cluster_def two_node_schedule_def cluster_start_def master_iterates_def
      master_drains_def node_polls_def node_receives_def high_water_def tiny_config_fields
      item_count_def int32_def)

lemma dispatcher_pushes_each_index_once:
  assumes "run_cluster c n num_nodes es = Some s" and "0 \<le> item_count n"
  shows "distinct (map snd (pushed s))"
    and "set (map snd (pushed s)) \<subseteq> {0..item_count n - 1}"
    and "distribution_over n num_nodes s \<Longrightarrow>
            mset (map snd (pushed s)) = mset [0..item_count n - 1] \<and>
            list_all (\<lambda>k. length (filter (\<lambda>p. snd p = k) (pushed s)) = 1) [0..item_count n - 1]"
proof -
  note inv = run_cluster_invariant [OF assms, unfolded cluster_invariant_def]
  let ?k = "next_work_item_to_allocate s"
  from inv have eq: "mset (map snd (pushed s)) + mset (in_flight s) = mset [0..?k - 1]"
    and le: "?k \<le> item_count n" by simp_all
  have cnt: "count (mset (map snd (pushed s))) x \<le> count (mset [0..?k - 1]) x" for x
    by (simp flip: eq)
  have le1: "count (mset (map snd (pushed s))) x \<le> 1" for x
    using cnt [of x] by (simp add: count_upto split: if_splits)
  have d: "distinct (map snd (pushed s))"
    unfolding distinct_count_atmost_1
  proof
    fix a
    show "count (mset (map snd (pushed s))) a = (if a \<in> set (map snd (pushed s)) then 1 else 0)"
    proof (cases "a \<in> set (map snd (pushed s))")
      case True
      then have "0 < count (mset (map snd (pushed s))) a"
        by (simp only: count_greater_zero_iff set_mset_mset)
      with le1 [of a] have "count (mset (map snd (pushed s))) a = 1" by linarith
      with True show ?thesis by (simp only: if_True)
    next
      case False
      then have "count (mset (map snd (pushed s))) a = 0"
        by (simp only: count_eq_zero_iff set_mset_mset not_False_eq_True)
      with False show ?thesis by (simp only: if_False)
    qed
  qed
  have sub: "set (map snd (pushed s)) \<subseteq> {0..item_count n - 1}"
  proof
    fix x assume "x \<in> set (map snd (pushed s))"
    then have "0 < count (mset (map snd (pushed s))) x"
      by (simp only: count_greater_zero_iff set_mset_mset)
    with cnt [of x] have "0 < count (mset [0..?k - 1]) x" by linarith
    then have "0 \<le> x \<and> x \<le> ?k - 1" by (simp add: count_upto split: if_splits)
    with le show "x \<in> {0..item_count n - 1}" by simp
  qed
  have fin: "mset (map snd (pushed s)) = mset [0..item_count n - 1] \<and>
            list_all (\<lambda>k. length (filter (\<lambda>p. snd p = k) (pushed s)) = 1) [0..item_count n - 1]"
    if over: "distribution_over n num_nodes s"
  proof -
    from over le have k: "?k = item_count n" by (simp add: distribution_over_def)
    have "replies s = []"
    proof (cases "replies s")
      case (Cons a rs)
      then have "fst a \<in> set (requests s @ map fst (replies s))" by simp
      with inv have a: "1 \<le> fst a" "fst a < num_nodes" "node_state s (fst a) = Awaiting_reply"
        by blast+
      from a(1,2) over have "node_state s (fst a) = No_more_work"
        by (simp add: distribution_over_def list_all_iff)
      with a(3) show ?thesis by simp
    qed simp
    then have m: "mset (map snd (pushed s)) = mset [0..item_count n - 1]"
      using eq by (simp add: in_flight_def k)
    have "length (filter (\<lambda>p. snd p = x) (pushed s)) = 1" if "x \<in> set [0..item_count n - 1]" for x
    proof -
      have "count (mset (map snd (pushed s))) x = count (mset [0..item_count n - 1]) x"
        by (simp only: m)
      also have "\<dots> = 1" using that by (simp add: count_upto)
      finally show ?thesis by (simp only: count_filter_snd)
    qed
    then show ?thesis using m by (simp add: list_all_iff)
  qed
  show "distinct (map snd (pushed s))" by (rule d)
  show "set (map snd (pushed s)) \<subseteq> {0..item_count n - 1}" by (rule sub)
  show "mset (map snd (pushed s)) = mset [0..item_count n - 1] \<and>
        list_all (\<lambda>k. length (filter (\<lambda>p. snd p = k) (pushed s)) = 1) [0..item_count n - 1]"
    if "distribution_over n num_nodes s"
    using fin [OF that] .
qed

section \<open>Every work item is pushed once and evaluated once\<close>

lemma system_run_from_snoc:
  "system_run_from c n num_nodes S (es @ [e]) =
     (case system_run_from c n num_nodes S es of
        None \<Rightarrow> None
      | Some T \<Rightarrow> system_step c n num_nodes e T)"
  by (induction es arbitrary: S) (auto split: option.splits)

lemma run_system_induct [consumes 1, case_names start step]:
  assumes "run_system c n num_nodes es = Some S"
    and "P (system_start c)"
    and "\<And>es S e S'. run_system c n num_nodes es = Some S \<Longrightarrow> P S \<Longrightarrow>
           system_step c n num_nodes e S = Some S' \<Longrightarrow> P S'"
  shows "P S"
  using assms(1)
proof (induction es arbitrary: S rule: rev_induct)
  case Nil
  with assms(2) show ?case by (simp add: run_system_def)
next
  case (snoc e es)
  from snoc.prems obtain T where T: "run_system c n num_nodes es = Some T"
    and st: "system_step c n num_nodes e T = Some S"
    by (auto simp: run_system_def system_run_from_snoc split: option.splits)
  from assms(3) [OF T snoc.IH [OF T] st] show ?case .
qed

lemma cluster_run_from_snoc:
  "cluster_run_from c n num_nodes s (es @ [e]) =
     (case cluster_run_from c n num_nodes s es of
        None \<Rightarrow> None
      | Some t \<Rightarrow> cluster_step c n num_nodes e t)"
  by (induction es arbitrary: s) (auto split: option.splits)

text \<open>What a step of the distribution code pushes.\<close>

lemma cluster_step_pushes:
  assumes "cluster_step c n num_nodes e d = Some d'"
  shows "pushed d' = pushed d \<or> (\<exists>r k. pushed d' = pushed d @ [(r, k)])"
  using assms
  by (cases e)
    (auto simp: master_iterates_def master_drains_def node_polls_def node_receives_def
      split: if_splits option.splits)

lemma dispatch_cases:
  assumes "dispatch c n num_nodes e S = Some S'"
  obtains (quiet) "cluster_step c n num_nodes e (dispatcher S) = Some (dispatcher S')"
      "pushed (dispatcher S') = pushed (dispatcher S)" "node_of S' = node_of S"
    | (push) r k t where
      "cluster_step c n num_nodes e (dispatcher S) = Some (dispatcher S')"
      "pushed (dispatcher S') = pushed (dispatcher S) @ [(r, k)]"
      "step c (Main_distributes k) (node_of S r) = Some t"
      "node_of S' = (node_of S)(r := t)"
proof -
  from assms obtain d where d: "cluster_step c n num_nodes e (dispatcher S) = Some d"
    by (auto simp: dispatch_def split: option.splits)
  from cluster_step_pushes [OF d] show ?thesis
  proof (elim disjE exE)
    assume p: "pushed d = pushed (dispatcher S)"
    with assms d have "S' = S\<lparr>dispatcher := d\<rparr>" by (simp add: dispatch_def)
    with d p show ?thesis by (intro quiet) simp_all
  next
    fix r k assume p: "pushed d = pushed (dispatcher S) @ [(r, k)]"
    with assms d obtain t where
      t: "step c (Main_distributes k) (node_of S r) = Some t" and
      S': "S' = S\<lparr>dispatcher := d, node_of := (node_of S)(r := t)\<rparr>"
      by (auto simp: dispatch_def split: option.splits)
    with d p show ?thesis by (intro push [of r k t]) simp_all
  qed
qed

lemma at_node_cases:
  assumes "at_node c n num_nodes r e S = Some S'"
  obtains t where "0 \<le> r" "r < num_nodes" "own_step e"
    "leaves_distribution e (node_of S r) \<longrightarrow> loops_ended n num_nodes (dispatcher S) r"
    "step c e (node_of S r) = Some t" "node_of S' = (node_of S)(r := t)"
    "dispatcher S' = dispatcher S"
  using assms by (auto simp: at_node_def split: if_splits option.splits)

text \<open>Every state of the distribution code and of a node in the cluster is a state of a
  run of the dispatcher model, and of the node model.\<close>

lemma system_dispatcher_run:
  assumes "run_system c n num_nodes es = Some S"
  shows "\<exists>ces. run_cluster c n num_nodes ces = Some (dispatcher S)"
  using assms
proof (induction rule: run_system_induct)
  case start
  have "run_cluster c n num_nodes [] = Some (dispatcher (system_start c))"
    by (simp add: run_cluster_def system_start_def)
  then show ?case ..
next
  case (step es S e S')
  from step obtain ces where ces: "run_cluster c n num_nodes ces = Some (dispatcher S)"
    by blast
  from step have st: "system_step c n num_nodes e S = Some S'" by simp
  show ?case
  proof (cases e)
    case (Dispatch ce)
    with st have "dispatch c n num_nodes ce S = Some S'" by simp
    then have "cluster_step c n num_nodes ce (dispatcher S) = Some (dispatcher S')"
      by (cases rule: dispatch_cases)
    with ces have "run_cluster c n num_nodes (ces @ [ce]) = Some (dispatcher S')"
      by (simp add: run_cluster_def cluster_run_from_snoc)
    then show ?thesis ..
  next
    case (At_node r ne)
    with st have "at_node c n num_nodes r ne S = Some S'" by simp
    then have "dispatcher S' = dispatcher S" by (rule at_node_cases)
    with ces show ?thesis by auto
  qed
qed

lemma system_node_run:
  assumes "run_system c n num_nodes es = Some S"
  shows "\<exists>nes. run_node c nes = Some (node_of S r)"
  using assms
proof (induction rule: run_system_induct)
  case start
  have "run_node c [] = Some (node_of (system_start c) r)"
    by (simp add: run_node_def system_start_def)
  then show ?case ..
next
  case (step es S e S')
  from step obtain nes where nes: "run_node c nes = Some (node_of S r)" by blast
  from step have st: "system_step c n num_nodes e S = Some S'" by simp
  have "node_of S' r = node_of S r \<or> (\<exists>ne. step c ne (node_of S r) = Some (node_of S' r))"
  proof (cases e)
    case (Dispatch ce)
    with st have "dispatch c n num_nodes ce S = Some S'" by simp
    then show ?thesis
    proof (cases rule: dispatch_cases)
      case quiet
      then show ?thesis by simp
    next
      case (push r0 k t)
      show ?thesis
      proof (cases "r = r0")
        case True
        with push(3,4) have "step c (Main_distributes k) (node_of S r) = Some (node_of S' r)"
          by simp
        then show ?thesis by blast
      next
        case False
        with push(4) show ?thesis by simp
      qed
    qed
  next
    case (At_node r' ne)
    with st have "at_node c n num_nodes r' ne S = Some S'" by simp
    then show ?thesis by (rule at_node_cases) auto
  qed
  then show ?case
  proof
    assume "node_of S' r = node_of S r"
    with nes show ?thesis by auto
  next
    assume "\<exists>ne. step c ne (node_of S r) = Some (node_of S' r)"
    then obtain ne where "step c ne (node_of S r) = Some (node_of S' r)" ..
    with nes have "run_node c (nes @ [ne]) = Some (node_of S' r)"
      by (simp add: run_node_def run_from_snoc)
    then show ?thesis ..
  qed
qed

lemma main_distributes_effect:
  assumes "step c (Main_distributes k) s = Some t"
  shows "load_work_pushed t = load_work_pushed s @ [\<lparr>LoadWorkEntry.work_item_index = k\<rparr>]"
    and "k \<noteq> - 1" and "main_thread t = main_thread s"
  using assms by (auto simp: main_distributes_def split: list.splits if_splits)

lemma own_step_keeps_work_pushed:
  assumes "step c e s = Some t" and "own_step e"
  shows "filter (\<lambda>x. \<not> is_load_sentinel x) (load_work_pushed t) =
         filter (\<lambda>x. \<not> is_load_sentinel x) (load_work_pushed s)"
proof (cases e)
  case (Main_distributes k)
  with assms(2) show ?thesis by (simp add: own_step_def)
next
  case (Main_proceeds v)
  with assms(1) show ?thesis
    by (auto simp: main_proceeds_def is_load_sentinel_def
        split: list.splits main_action.splits if_splits)
qed (use worker_step_main(2) [OF assms(1)] in auto)

lemma leaving_distribution:
  assumes "step c e s = Some t" and "Distribute_work \<in> set (main_thread s)"
    and "Distribute_work \<notin> set (main_thread t)"
  shows "leaves_distribution e s"
proof (cases e)
  case (Main_distributes k)
  with assms main_distributes_effect(3) [of c k s t] show ?thesis by simp
next
  case (Main_proceeds v)
  with assms show ?thesis
    by (auto simp: main_proceeds_def leaves_distribution_def
        split: list.splits main_action.splits if_splits)
qed (use assms worker_step_main(1) [OF assms(1)] in auto)

lemma loops_ended_stays:
  assumes "cluster_step c n num_nodes e d = Some d'" and "loops_ended n num_nodes d r"
  shows "loops_ended n num_nodes d' r"
  using assms
  by (cases e)
    (auto simp: loops_ended_def master_iterates_def master_drains_def node_polls_def
      node_receives_def split: if_splits option.splits)

lemma cluster_step_pushes_in_range:
  assumes "cluster_step c n num_nodes e d = Some d'"
    and "pushed d' = pushed d @ [(r, k)]"
    and "cluster_invariant n num_nodes d" and "1 \<le> num_nodes"
  shows "0 \<le> r \<and> r < num_nodes"
proof (cases e)
  case (Node_receives r')
  with assms(1,2) have a: "node_state d r' = Awaiting_reply" and "map_of (replies d) r' = Some k"
    and r: "r = r'"
    by (auto simp: node_receives_def split: if_splits option.splits)
  then have "(r', k) \<in> set (replies d)" by (simp add: map_of_in)
  then have "r' \<in> set (requests d @ map fst (replies d))" by force
  with assms(3) have "1 \<le> r' \<and> r' < num_nodes"
    unfolding cluster_invariant_def by blast
  with r show ?thesis by simp
qed (use assms in \<open>auto simp: master_iterates_def master_drains_def node_polls_def
      split: if_splits option.splits\<close>)

lemma start_system_invariant: "system_invariant n num_nodes (system_start c)"
  by (simp add: system_invariant_def system_start_def work_pushed_def initial_def
      cluster_start_def main_program_def)

lemma step_keeps_system_invariant:
  assumes st: "system_step c n num_nodes e S = Some S'"
    and ci: "cluster_invariant n num_nodes (dispatcher S)"
    and nn: "1 \<le> num_nodes"
    and inv: "system_invariant n num_nodes S"
  shows "system_invariant n num_nodes S'"
proof -
  from inv have
    link: "\<And>r. work_pushed S r = map snd (filter (\<lambda>p. fst p = r) (pushed (dispatcher S)))" and
    sync: "\<And>r. 0 \<le> r \<Longrightarrow> r < num_nodes \<Longrightarrow>
             Distribute_work \<notin> set (main_thread (node_of S r)) \<Longrightarrow>
             loops_ended n num_nodes (dispatcher S) r" and
    range: "\<And>p. p \<in> set (pushed (dispatcher S)) \<Longrightarrow> 0 \<le> fst p \<and> fst p < num_nodes"
    by (simp_all add: system_invariant_def)
  show ?thesis
  proof (cases e)
    case (Dispatch ce)
    with st have "dispatch c n num_nodes ce S = Some S'" by simp
    then show ?thesis
    proof (cases rule: dispatch_cases)
      case quiet
      have "work_pushed S' r = work_pushed S r" for r
        by (simp add: work_pushed_def quiet(3))
      moreover have "loops_ended n num_nodes (dispatcher S') r"
        if "0 \<le> r" "r < num_nodes" "Distribute_work \<notin> set (main_thread (node_of S' r))" for r
        using sync [of r] that loops_ended_stays [OF quiet(1)] by (simp add: quiet(3))
      ultimately show ?thesis
        unfolding system_invariant_def using link range by (simp add: quiet(2))
    next
      case (push r0 k t)
      note eff = main_distributes_effect [OF push(3)]
      have l: "work_pushed S' r = map snd (filter (\<lambda>p. fst p = r) (pushed (dispatcher S')))"
        for r
      proof (cases "r = r0")
        case True
        have "work_pushed S' r0 = work_pushed S r0 @ [k]"
          using eff(1,2) by (simp add: work_pushed_def push(4) is_load_sentinel_def)
        with True link [of r0] show ?thesis by (simp add: push(2))
      next
        case False
        then have "work_pushed S' r = work_pushed S r"
          by (simp add: work_pushed_def push(4))
        with False link [of r] show ?thesis by (simp add: push(2))
      qed
      have s: "loops_ended n num_nodes (dispatcher S') r"
        if "0 \<le> r" "r < num_nodes" "Distribute_work \<notin> set (main_thread (node_of S' r))" for r
      proof -
        have "main_thread (node_of S' r) = main_thread (node_of S r)"
          using eff(3) by (simp add: push(4))
        with that sync [of r] have "loops_ended n num_nodes (dispatcher S) r" by simp
        then show ?thesis by (rule loops_ended_stays [OF push(1)])
      qed
      have "0 \<le> r0 \<and> r0 < num_nodes"
        by (rule cluster_step_pushes_in_range [OF push(1,2) ci nn])
      with range have g: "\<forall>p \<in> set (pushed (dispatcher S')). 0 \<le> fst p \<and> fst p < num_nodes"
        by (auto simp: push(2))
      show ?thesis unfolding system_invariant_def using l s g by blast
    qed
  next
    case (At_node r0 ne)
    with st have "at_node c n num_nodes r0 ne S = Some S'" by simp
    then obtain t where a: "0 \<le> r0" "r0 < num_nodes" "own_step ne"
      and leave: "leaves_distribution ne (node_of S r0) \<longrightarrow>
                  loops_ended n num_nodes (dispatcher S) r0"
      and t: "step c ne (node_of S r0) = Some t"
      and no: "node_of S' = (node_of S)(r0 := t)"
      and d: "dispatcher S' = dispatcher S"
      by (rule at_node_cases) blast
    have l: "work_pushed S' r = work_pushed S r" for r
      using own_step_keeps_work_pushed [OF t a(3)] by (simp add: work_pushed_def no)
    have s: "loops_ended n num_nodes (dispatcher S') r"
      if r: "0 \<le> r" "r < num_nodes" "Distribute_work \<notin> set (main_thread (node_of S' r))" for r
    proof (cases "r = r0")
      case False
      with r sync [of r] show ?thesis by (simp add: no d)
    next
      case True
      with r(3) have after: "Distribute_work \<notin> set (main_thread t)" by (simp add: no)
      show ?thesis
      proof (cases "Distribute_work \<in> set (main_thread (node_of S r0))")
        case False
        with sync [of r0] a True show ?thesis by (simp add: d)
      next
        case before: True
        from leave leaving_distribution [OF t before after] True show ?thesis
          by (simp add: d)
      qed
    qed
    show ?thesis unfolding system_invariant_def using l s link range by (simp add: d)
  qed
qed

lemma run_system_invariant:
  assumes "run_system c n num_nodes es = Some S" and "1 \<le> num_nodes"
    and "0 \<le> item_count n"
  shows "system_invariant n num_nodes S"
  using assms(1)
proof (induction rule: run_system_induct)
  case start
  show ?case by (rule start_system_invariant)
next
  case (step es S e S')
  from step have run: "run_system c n num_nodes es = Some S"
    and P: "system_invariant n num_nodes S"
    and st: "system_step c n num_nodes e S = Some S'"
    by simp_all
  from system_dispatcher_run [OF run] obtain ces where
    "run_cluster c n num_nodes ces = Some (dispatcher S)" ..
  then have "cluster_invariant n num_nodes (dispatcher S)"
    using assms(3) by (rule run_cluster_invariant)
  then show ?case by (rule step_keeps_system_invariant [OF st _ assms(2) P])
qed

text \<open>Sorting what was pushed by rank loses nothing.\<close>

lemma sum_list_single:
  assumes "0 \<le> a" and "a < num_nodes"
  shows "(\<Sum>r\<leftarrow>[0..num_nodes - 1]. if a = r then X else ({#} :: 'a multiset)) = X"
proof -
  have "[0..num_nodes - 1] = [0..a - 1] @ a # [a + 1..num_nodes - 1]"
    using assms by (intro upto_split3) simp_all
  moreover have "(\<Sum>r\<leftarrow>[0..a - 1]. if a = r then X else {#}) = {#}"
    by (rule sum_list_empty) auto
  moreover have "(\<Sum>r\<leftarrow>[a + 1..num_nodes - 1]. if a = r then X else {#}) = {#}"
    by (rule sum_list_empty) auto
  ultimately show ?thesis by simp
qed

lemma pushed_by_rank:
  assumes "\<forall>p \<in> set ps. 0 \<le> fst p \<and> fst p < num_nodes"
  shows "(\<Sum>r\<leftarrow>[0..num_nodes - 1]. mset (map snd (filter (\<lambda>p. fst p = r) ps))) =
         mset (map snd ps)"
  using assms
proof (induction ps)
  case Nil
  show ?case by (simp add: sum_list_empty)
next
  case (Cons p ps)
  have "(\<Sum>r\<leftarrow>[0..num_nodes - 1]. mset (map snd (filter (\<lambda>q. fst q = r) (p # ps)))) =
        (\<Sum>r\<leftarrow>[0..num_nodes - 1].
           (if fst p = r then {#snd p#} else {#}) + mset (map snd (filter (\<lambda>q. fst q = r) ps)))"
    by (rule arg_cong [where f = sum_list], rule map_cong) auto
  also have "\<dots> = (\<Sum>r\<leftarrow>[0..num_nodes - 1]. if fst p = r then {#snd p#} else {#}) +
        (\<Sum>r\<leftarrow>[0..num_nodes - 1]. mset (map snd (filter (\<lambda>q. fst q = r) ps)))"
    by (simp add: sum_list_addf)
  also have "\<dots> = {#snd p#} + mset (map snd ps)"
    using Cons by (simp add: sum_list_single)
  finally show ?case by simp
qed

lemma all_returned_distribution_over:
  assumes "system_invariant n num_nodes S" and "all_returned num_nodes S" and "1 \<le> num_nodes"
  shows "distribution_over n num_nodes (dispatcher S)"
proof -
  have e: "loops_ended n num_nodes (dispatcher S) r" if "0 \<le> r" "r < num_nodes" for r
  proof -
    from assms(2) that have "main_thread (node_of S r) = []"
      by (simp add: all_returned_def list_all_iff)
    with assms(1) that show ?thesis by (simp add: system_invariant_def)
  qed
  from e [of 0] assms(3) have "\<not> next_work_item_to_allocate (dispatcher S) < item_count n"
    "\<not> workers_done (dispatcher S) < num_nodes"
    by (simp_all add: loops_ended_def)
  moreover have "node_state (dispatcher S) r = No_more_work"
    if "r \<in> set [1..num_nodes - 1]" for r
    using e [of r] that by (simp add: loops_ended_def)
  ultimately show ?thesis by (simp add: distribution_over_def list_all_iff)
qed

lemma no_load_workers_fields:
  "GPUS_PER_NODE no_load_workers = 1" "TASKS_IN_QUEUE_PER_GPU no_load_workers = 1"
  "LOAD_WORKERS_PER_NODE no_load_workers = 0"
  by (simp_all add: no_load_workers_def tiny_config_def)

lemma no_load_workers_run:
  "map_option (\<lambda>S. (pushed (dispatcher S), load_work (node_of S 0), main_thread (node_of S 0),
                     evaluated (node_of S 0)))
     (run_system no_load_workers 1 1 no_load_workers_schedule) =
   Some ([(0, 0)], [\<lparr>LoadWorkEntry.work_item_index = 0\<rparr>], [], [])"
  by (simp add: run_system_def system_start_def no_load_workers_schedule_def dispatch_def
      at_node_def own_step_def leaves_distribution_def loops_ended_def cluster_start_def
      master_iterates_def high_water_def item_count_def int32_def initial_def
      main_program_def buffer_pool_def
      main_distributes_def main_proceeds_def eval_pops_def push_def pop_def
      no_load_workers_fields)

lemma two_node_run_state:
  "\<exists>S. run_system tiny_config 2 2 two_node_run = Some S \<and>
       all_returned 2 S \<and>
       pushed (dispatcher S) = [(0, 0), (1, 1)] \<and>
       evaluated (node_of S 0) = [(0, 0, 0)] \<and>
       evaluated (node_of S 1) = [(0, 1, 0)]"
  by (simp add: run_system_def system_start_def two_node_run_def item_through_node_def
      node_shuts_down_def dispatch_def
      at_node_def own_step_def leaves_distribution_def loops_ended_def cluster_start_def
      master_iterates_def master_drains_def node_polls_def node_receives_def
      high_water_def item_count_def int32_def initial_def main_program_tiny buffer_pool_tiny
      main_distributes_def main_proceeds_def load_pops_work_def load_pops_buffer_def
      load_pushes_eval_def eval_pops_def eval_releases_def push_def pop_def Let_def
      tiny_config_fields all_returned_def upto_rec1)

lemma no_buffers_stutters:
  assumes "cluster_step no_buffers 1 1 e cluster_start = Some d"
  shows "d = cluster_start"
  using assms
  by (cases e)
    (auto simp: master_iterates_def master_drains_def node_polls_def node_receives_def
      high_water_def item_count_def int32_def no_buffers_def tiny_config_def cluster_start_def
      split: if_splits option.splits)

lemma no_buffers_cluster_run:
  "cluster_run_from no_buffers 1 1 cluster_start es = Some d \<Longrightarrow> d = cluster_start"
proof (induction es)
  case Nil
  then show ?case by simp
next
  case (Cons e es)
  from Cons.prems obtain d1 where
    d1: "cluster_step no_buffers 1 1 e cluster_start = Some d1" and
    rest: "cluster_run_from no_buffers 1 1 d1 es = Some d"
    by (auto split: option.splits)
  from no_buffers_stutters [OF d1] rest Cons.IH show ?case by simp
qed

lemma no_buffers_run:
  "case run_system no_buffers 1 1 es of
     None \<Rightarrow> True
   | Some S \<Rightarrow> pushed (dispatcher S) = [] \<and> \<not> distribution_over 1 1 (dispatcher S)"
proof (cases "run_system no_buffers 1 1 es")
  case None
  then show ?thesis by simp
next
  case (Some S)
  from system_dispatcher_run [OF Some] obtain ces where
    "run_cluster no_buffers 1 1 ces = Some (dispatcher S)" ..
  then have "dispatcher S = cluster_start"
    by (simp add: run_cluster_def no_buffers_cluster_run)
  with Some show ?thesis
    by (simp add: cluster_start_def distribution_over_def item_count_def int32_def)
qed

text \<open>
  Claim C1 as stated fails in two ways, both with one work item on a single node.
  \<^item> With \<^verbatim>\<open>--load_workers_per_node 0\<close> the master pushes index 0 into \<^verbatim>\<open>load_work\<close>, the
    loops of lines 870, 903, 1011 and 1017 run zero times, \<^verbatim>\<open>main\<close> pushes the sentinel of
    \<^verbatim>\<open>eval_work[0]\<close>, joins the evaluate worker and returns: the item is still in
    \<^verbatim>\<open>load_work\<close> and nothing has been evaluated.
  \<^item> With \<^verbatim>\<open>--tasks_in_queue_per_gpu 0\<close> the test of line 953 never succeeds and there is
    no other node to ask, so in every run nothing is ever pushed and the loop of line 942
    never ends.
\<close>

theorem pushed_item_never_evaluated:
  "\<forall>es.
     map_option (\<lambda>S. (pushed (dispatcher S), load_work (node_of S 0), all_returned 1 S,
                       evaluated_items 1 S))
       (run_system no_load_workers 1 1 no_load_workers_schedule) =
     Some ([(0, 0)], [\<lparr>LoadWorkEntry.work_item_index = 0\<rparr>], True, {#}) \<and>
     (case run_system no_buffers 1 1 es of
        None \<Rightarrow> True
      | Some S \<Rightarrow> pushed (dispatcher S) = [] \<and> \<not> distribution_over 1 1 (dispatcher S))"
proof
  fix es
  from no_load_workers_run obtain S where
    S: "run_system no_load_workers 1 1 no_load_workers_schedule = Some S"
    "pushed (dispatcher S) = [(0, 0)]"
    "load_work (node_of S 0) = [\<lparr>LoadWorkEntry.work_item_index = 0\<rparr>]"
    "main_thread (node_of S 0) = []" "evaluated (node_of S 0) = []"
    by auto
  then have "all_returned 1 S" "evaluated_items 1 S = {#}"
    by (simp_all add: all_returned_def evaluated_items_def)
  with S no_buffers_run [of es] show
    "map_option (\<lambda>S. (pushed (dispatcher S), load_work (node_of S 0), all_returned 1 S,
                       evaluated_items 1 S))
       (run_system no_load_workers 1 1 no_load_workers_schedule) =
     Some ([(0, 0)], [\<lparr>LoadWorkEntry.work_item_index = 0\<rparr>], True, {#}) \<and>
     (case run_system no_buffers 1 1 es of
        None \<Rightarrow> True
      | Some S \<Rightarrow> pushed (dispatcher S) = [] \<and> \<not> distribution_over 1 1 (dispatcher S))"
    by simp
qed

text \<open>
  Claim C1, amended.  In every state of every run of a cluster of at least one node over
  \<open>n\<close> work items, \<open>n\<close> being an \<^verbatim>\<open>int\<close> as the indices are:
  \<^item> no index has been pushed twice, only indices \<open>0, \<dots>, n - 1\<close> have been pushed, every
    push was made on a rank of the cluster, and the entries other than sentinels pushed
    into \<^verbatim>\<open>load_work\<close> of a rank are the indices pushed on that rank;
  \<^item> once the distribution code has ended on every rank, every index \<open>0, \<dots>, n - 1\<close> has
    been pushed exactly once, into \<^verbatim>\<open>load_work\<close> of one node;
  \<^item> once \<^verbatim>\<open>main\<close> has returned on every rank, the distribution code has ended on every
    rank and, if there is at least one load worker per node, the work items evaluated on
    all nodes together are \<open>0, \<dots>, n - 1\<close>, each exactly once.
\<close>

theorem every_index_pushed_exactly_once:
  assumes "run_system c n num_nodes es = Some S" and "1 \<le> num_nodes"
    and "int n < 2147483648"
  shows "distinct (map snd (pushed (dispatcher S))) \<and>
         set (map snd (pushed (dispatcher S))) \<subseteq> {0..int n - 1} \<and>
         list_all (\<lambda>p. 0 \<le> fst p \<and> fst p < num_nodes) (pushed (dispatcher S)) \<and>
         list_all (\<lambda>r. work_pushed S r =
                         map snd (filter (\<lambda>p. fst p = r) (pushed (dispatcher S))))
           [0..num_nodes - 1] \<and>
         (distribution_over n num_nodes (dispatcher S) \<longrightarrow>
            mset (map snd (pushed (dispatcher S))) = mset [0..int n - 1] \<and>
            list_all (\<lambda>k. length (filter (\<lambda>p. snd p = k) (pushed (dispatcher S))) = 1)
              [0..int n - 1]) \<and>
         (all_returned num_nodes S \<longrightarrow>
            distribution_over n num_nodes (dispatcher S) \<and>
            (1 \<le> LOAD_WORKERS_PER_NODE c \<longrightarrow>
               evaluated_items num_nodes S = mset [0..int n - 1]))"
proof -
  from system_dispatcher_run [OF assms(1)] obtain ces where
    ces: "run_cluster c n num_nodes ces = Some (dispatcher S)" ..
  have n: "item_count n = int n" by (rule item_count_id [OF assms(3)])
  then have n0: "0 \<le> item_count n" by simp
  note d = dispatcher_pushes_each_index_once [OF ces n0, unfolded n]
  note inv = run_system_invariant [OF assms(1,2) n0]
  from inv have range: "\<forall>p \<in> set (pushed (dispatcher S)). 0 \<le> fst p \<and> fst p < num_nodes"
    and link: "\<And>r. work_pushed S r = map snd (filter (\<lambda>p. fst p = r) (pushed (dispatcher S)))"
    by (simp_all add: system_invariant_def)
  have a: "list_all (\<lambda>p. 0 \<le> fst p \<and> fst p < num_nodes) (pushed (dispatcher S))"
    using range by (simp add: list_all_iff)
  have b: "list_all (\<lambda>r. work_pushed S r =
                         map snd (filter (\<lambda>p. fst p = r) (pushed (dispatcher S))))
           [0..num_nodes - 1]"
    using link by (simp add: list_all_iff)
  have over: "distribution_over n num_nodes (dispatcher S)" if "all_returned num_nodes S"
    using all_returned_distribution_over [OF inv that assms(2)] .
  have ev: "evaluated_items num_nodes S = mset [0..int n - 1]"
    if ret: "all_returned num_nodes S" and L: "1 \<le> LOAD_WORKERS_PER_NODE c"
  proof -
    have node: "mset (map (\<lambda>(g, item, i). item) (evaluated (node_of S r))) =
                mset (map snd (filter (\<lambda>p. fst p = r) (pushed (dispatcher S))))"
      if r: "r \<in> set [0..num_nodes - 1]" for r
    proof -
      from system_node_run [OF assms(1), of r] obtain nes where
        nes: "run_node c nes = Some (node_of S r)" ..
      from ret r have fin: "main_thread (node_of S r) = []"
        by (simp add: all_returned_def list_all_iff)
      have "mset (map (\<lambda>(g, item, i). item) (evaluated (node_of S r))) =
            work_of (load_work_pushed (node_of S r))"
        by (rule completed_run_evaluates_pushed_work [OF nes fin L])
      also have "\<dots> = mset (work_pushed S r)" by (simp add: work_of_def work_pushed_def)
      finally show ?thesis by (simp only: link)
    qed
    have "evaluated_items num_nodes S =
          (\<Sum>r\<leftarrow>[0..num_nodes - 1].
             mset (map snd (filter (\<lambda>p. fst p = r) (pushed (dispatcher S)))))"
      unfolding evaluated_items_def
      by (rule arg_cong [where f = sum_list], rule map_cong [OF refl]) (rule node)
    also have "\<dots> = mset (map snd (pushed (dispatcher S)))"
      by (rule pushed_by_rank [OF range])
    also have "\<dots> = mset [0..int n - 1]" using d(3) [OF over [OF ret]] by simp
    finally show ?thesis .
  qed
  show ?thesis using d a b over ev by blast
qed

theorem every_index_pushed_exactly_once_witness:
  "\<exists>S. run_system tiny_config 2 2 two_node_run = Some S \<and>
       (1 :: int) \<le> 2 \<and> int 2 < 2147483648 \<and> all_returned 2 S \<and>
       1 \<le> LOAD_WORKERS_PER_NODE tiny_config \<and>
       pushed (dispatcher S) = [(0, 0), (1, 1)] \<and>
       work_pushed S 0 = [0] \<and> work_pushed S 1 = [1] \<and>
       evaluated (node_of S 0) = [(0, 0, 0)] \<and>
       evaluated (node_of S 1) = [(0, 1, 0)] \<and>
       distribution_over 2 2 (dispatcher S) \<and>
       evaluated_items 2 S = mset [0..int 2 - 1]"
proof -
  from two_node_run_state obtain S where
    S: "run_system tiny_config 2 2 two_node_run = Some S" "all_returned 2 S"
    "pushed (dispatcher S) = [(0, 0), (1, 1)]"
    "evaluated (node_of S 0) = [(0, 0, 0)]" "evaluated (node_of S 1) = [(0, 1, 0)]"
    by blast
  have L: "1 \<le> LOAD_WORKERS_PER_NODE tiny_config" by (simp add: tiny_config_fields)
  from every_index_pushed_exactly_once [OF S(1)] S(2) L have
    "work_pushed S 0 = [0] \<and> work_pushed S 1 = [1] \<and>
     distribution_over 2 2 (dispatcher S) \<and> evaluated_items 2 S = mset [0..int 2 - 1]"
    by (simp add: S(3) upto_rec1)
  with S L show ?thesis by auto
qed


end
